theory Spec2Isabelle
  imports Complex_Main "HOL-Library.Word" "HOL-Library.Sublist"
begin

section \<open>The DFU flashing tool \<^verbatim>\<open>tools/dfu.py\<close>\<close>

text \<open>
  The tool reads the flash layout of an STM32 in DFU mode from the names of its USB
  alternate settings, decides which sectors the hex file touches, and erases and writes
  exactly those. This theory embeds \<^verbatim>\<open>load_sectors\<close>, \<^verbatim>\<open>set_alternate_safe\<close>,
  \<^verbatim>\<open>erase\<close> and \<^verbatim>\<open>flash\<close> and proves the properties the specification states about them.

  Strings are lists of \<^typ>\<open>char\<close>, read as the code points 0 to 255; descriptor strings
  with code points above 255 are outside the model.
\<close>

subsection \<open>Python built-ins used by the parser\<close>

text \<open>
  \<^verbatim>\<open>s.split(sep)\<close> for a separator of one character: the fields between the separators,
  empty fields included, so the result is never empty.
\<close>

fun str_split :: "char \<Rightarrow> string \<Rightarrow> string list" where
  "str_split sep [] = [[]]"
| "str_split sep (c # cs) =
     (if c = sep then [] # str_split sep cs
      else (case str_split sep cs of
              w # ws \<Rightarrow> (c # w) # ws
            | [] \<Rightarrow> [[c]]))"

text \<open>
  \<^verbatim>\<open>int(s)\<close> and \<^verbatim>\<open>int(s, 0)\<close>, after CPython's \<^verbatim>\<open>PyLong_FromString\<close>: white space is
  skipped on both sides, one sign is accepted, with base 0 the prefixes \<^verbatim>\<open>0x\<close>, \<^verbatim>\<open>0o\<close> and
  \<^verbatim>\<open>0b\<close> select the base and a decimal literal may start with \<^verbatim>\<open>0\<close> only if it is zero;
  single underscores may separate digits. \<^verbatim>\<open>None\<close> stands for the \<^verbatim>\<open>ValueError\<close>.
  White space is what \<^verbatim>\<open>int\<close> treats as such among the code points up to 255. The limit
  on the number of digits of recent CPython versions (4300) is not modelled; a USB string
  descriptor holds at most 126 characters.
\<close>

definition is_space :: "char \<Rightarrow> bool" where
  "is_space c = (of_char c \<in> {9, 10, 11, 12, 13, 32, 133, 160 :: nat})"

definition digit_value :: "char \<Rightarrow> int" where
  "digit_value c =
     (let n = of_char c :: int in
      if 48 \<le> n \<and> n \<le> 57 then n - 48
      else if 97 \<le> n \<and> n \<le> 122 then n - 87
      else if 65 \<le> n \<and> n \<le> 90 then n - 55
      else 37)"

fun underscores_ok :: "string \<Rightarrow> bool" where
  "underscores_ok [] = True"
| "underscores_ok [c] = (c \<noteq> CHR ''_'')"
| "underscores_ok (c # d # cs) =
     (\<not> (c = CHR ''_'' \<and> d = CHR ''_'') \<and> underscores_ok (d # cs))"

definition digits_ok :: "string \<Rightarrow> bool" where
  "digits_ok ds = (case ds of [] \<Rightarrow> False | c # cs \<Rightarrow> c \<noteq> CHR ''_'' \<and> underscores_ok ds)"

definition digits_value :: "int \<Rightarrow> string \<Rightarrow> int" where
  "digits_value b ds =
     foldl (\<lambda>acc c. acc * b + digit_value c) 0 (filter (\<lambda>c. c \<noteq> CHR ''_'') ds)"

text \<open>The sign: the rest of the string and whether the value is negated.\<close>

fun take_sign :: "string \<Rightarrow> bool \<times> string" where
  "take_sign [] = (False, [])"
| "take_sign (c # cs) =
     (if c = CHR ''+'' then (False, cs)
      else if c = CHR ''-'' then (True, cs)
      else (False, c # cs))"

text \<open>
  Base 0: the base the literal selects, and whether it is a decimal literal with a
  leading zero (which must then be zero).
\<close>

fun detect_base :: "string \<Rightarrow> int \<times> bool" where
  "detect_base [] = (10, False)"
| "detect_base [c] = (10, c = CHR ''0'')"
| "detect_base (c # d # cs) =
     (if c \<noteq> CHR ''0'' then (10, False)
      else if d = CHR ''x'' \<or> d = CHR ''X'' then (16, False)
      else if d = CHR ''o'' \<or> d = CHR ''O'' then (8, False)
      else if d = CHR ''b'' \<or> d = CHR ''B'' then (2, False)
      else (10, True))"

text \<open>The prefix of a literal in base 16, 8 or 2, and one underscore after it.\<close>

fun skip_prefix :: "int \<Rightarrow> string \<Rightarrow> string" where
  "skip_prefix b (c # d # cs) =
     (if c = CHR ''0'' \<and>
         (b = 16 \<and> (d = CHR ''x'' \<or> d = CHR ''X'') \<or>
          b = 8 \<and> (d = CHR ''o'' \<or> d = CHR ''O'') \<or>
          b = 2 \<and> (d = CHR ''b'' \<or> d = CHR ''B''))
      then (case cs of e # es \<Rightarrow> if e = CHR ''_'' then es else cs | [] \<Rightarrow> cs)
      else c # d # cs)"
| "skip_prefix b cs = cs"

definition py_int :: "int \<Rightarrow> string \<Rightarrow> int option" where
  "py_int base s =
     (let (neg, s2) = take_sign (dropWhile is_space s);
          (b, zero_only) = (if base = 0 then detect_base s2 else (base, False));
          s3 = skip_prefix b s2;
          ds = takeWhile (\<lambda>c. digit_value c < b \<or> c = CHR ''_'') s3;
          rest = dropWhile (\<lambda>c. digit_value c < b \<or> c = CHR ''_'') s3;
          v = digits_value b ds
      in if \<not> digits_ok ds then None
         else if \<not> list_all is_space rest then None
         else if zero_only \<and> v \<noteq> 0 then None
         else Some (if neg then - v else v))"

text \<open>
  \<^verbatim>\<open>c.upper()\<close> on the letters \<^verbatim>\<open>a\<close> to \<^verbatim>\<open>z\<close>. The source uses the result only as a
  key of \<^verbatim>\<open>SIZE_MULTIPLIERS\<close>; for every other character neither the character nor its
  upper case in Python is one of the keys, so the lookup fails in both.
\<close>

definition upper :: "char \<Rightarrow> char" where
  "upper c =
     (let n = of_char c :: nat in if 97 \<le> n \<and> n \<le> 122 then char_of (n - 32) else c)"

subsection \<open>Device states and errors\<close>

text \<open>
  Modelled from the spec: the enumeration \<^verbatim>\<open>dfuse.DfuState\<close> and the status object of
  \<^verbatim>\<open>dfuse.DfuDevice\<close> are not in the source tree. The states are those the specification
  names, with one more constructor for every other state the device may report. Of the
  status the tool reads \<^verbatim>\<open>status[1]\<close>, the state, and it formats the whole object with
  \<^verbatim>\<open>%r\<close>; the other two fields are the status code and the poll time of the
  specification. The operator \<^verbatim>\<open>%\<close> treats a tuple on its right (a named tuple is one)
  unlike any other object, so \<open>is_tuple\<close> says whether the status is a tuple or another
  sequence, such as a list.
\<close>

datatype DfuState =
  DFU_IDLE | DFU_DOWNLOAD_BUSY | DFU_DOWNLOAD_IDLE | DFU_MANIFEST_SYNC | DFU_MANIFEST
| DFU_ERROR | DFU_OTHER nat

record DeviceStatus =
  is_tuple :: bool
  status_code :: nat
  state :: DfuState
  poll_timeout :: nat

text \<open>
  The exceptions the code can raise. The specification calls \<^verbatim>\<open>ValueError\<close> and
  \<^verbatim>\<open>KeyError\<close> from the parser a format error and \<^verbatim>\<open>RuntimeError\<close> with the device
  status a device protocol error; \<^verbatim>\<open>USBError\<close> stands for an error of the transport.
\<close>

datatype error =
  ValueError | KeyError | IndexError | TypeError | TimeoutError | USBError
| RuntimeError DeviceStatus

subsection \<open>The hex file\<close>

text \<open>
  The \<^verbatim>\<open>IntelHex\<close> object comes from the third-party library \<^verbatim>\<open>intelhex\<close>, an input of
  the planner like the descriptor strings. It is a sparse image, a dictionary from
  addresses to bytes, here an association list. \<^verbatim>\<open>segments()\<close> lists the contiguous
  populated ranges as pairs of a start and an exclusive end, in ascending order, so no
  segment is empty. \<^verbatim>\<open>tobinarray(start, end)\<close> reads the bytes of the addresses from
  \<^verbatim>\<open>start\<close> to \<^verbatim>\<open>end\<close> inclusive, giving the fill value \<^verbatim>\<open>0xFF\<close> where the image has no
  data; when \<^verbatim>\<open>start\<close> is greater than \<^verbatim>\<open>end\<close> the library swaps the two. The planner
  asks for such a range only for a sector whose size is not positive.
\<close>

type_synonym byte = "8 word"

type_synonym hexfile = "(int \<times> byte) list"

definition addresses :: "hexfile \<Rightarrow> int list" where
  "addresses hexfile = sort (remdups (map fst hexfile))"

fun runs :: "int list \<Rightarrow> (int \<times> int) list" where
  "runs [] = []"
| "runs (a # as) =
     (case runs as of
        [] \<Rightarrow> [(a, a + 1)]
      | (s, e) # rs \<Rightarrow> if s = a + 1 then (a, e) # rs else (a, a + 1) # (s, e) # rs)"

definition segments :: "hexfile \<Rightarrow> (int \<times> int) list" where
  "segments hexfile = runs (addresses hexfile)"

definition read_byte :: "hexfile \<Rightarrow> int \<Rightarrow> byte" where
  "read_byte hexfile i = (case map_of hexfile i of Some b \<Rightarrow> b | None \<Rightarrow> 0xFF)"

definition tobinarray :: "hexfile \<Rightarrow> int \<Rightarrow> int \<Rightarrow> byte list" where
  "tobinarray hexfile start en =
     (if start > en then map (read_byte hexfile) [en..start]
      else map (read_byte hexfile) [start..en])"

subsection \<open>The planner: \<^verbatim>\<open>load_sectors\<close>\<close>

definition SIZE_MULTIPLIERS :: "char \<rightharpoonup> int" where
  "SIZE_MULTIPLIERS = [CHR '' '' \<mapsto> 1, CHR ''K'' \<mapsto> 1024, CHR ''M'' \<mapsto> 1024 * 1024]"

definition TRANSFER_SIZE :: nat where
  "TRANSFER_SIZE = 2048"

text \<open>The dictionary that \<^verbatim>\<open>load_sectors\<close> yields for a touched sector.\<close>

record 'alt sector =
  alt :: 'alt
  addr :: int
  data :: "byte list"

text \<open>
  Lines 45 to 52: the loop over the segments of the hex file, left at the first segment
  that overlaps the sector at \<open>a\<close> of size \<open>sz\<close>.
\<close>

fun touched :: "(int \<times> int) list \<Rightarrow> int \<Rightarrow> int \<Rightarrow> bool" where
  "touched [] a sz = False"
| "touched ((start, en) # segs) a sz =
     (if start < a \<and> en > a then True
      else if start \<ge> a \<and> start < a + sz then True
      else touched segs a sz)"

text \<open>
  Lines 43 to 63: the \<^verbatim>\<open>while repeat > 0\<close> loop. It returns the sectors it yields and
  the address cursor it leaves.
\<close>

function expand_repeat ::
  "hexfile \<Rightarrow> 'alt \<Rightarrow> int \<Rightarrow> int \<Rightarrow> int \<Rightarrow> 'alt sector list \<times> int" where
  "expand_repeat hexfile al a sz rep =
     (if rep > 0 then
        (let ys = (if touched (segments hexfile) a sz
                   then [\<lparr>alt = al, addr = a, data = tobinarray hexfile a (a + sz - 1)\<rparr>]
                   else []);
             (zs, a') = expand_repeat hexfile al (a + sz) sz (rep - 1)
         in (ys @ zs, a'))
      else ([], a))"
  by pat_completeness auto
termination
  by (relation "measure (\<lambda>(hexfile, al, a, sz, rep). nat rep)") auto

text \<open>
  Lines 39 to 41: one sector specification, as \<open>(repeat, size, mode)\<close>. Unpacking
  \<^verbatim>\<open>map(int, ...)\<close> into two names raises \<^verbatim>\<open>ValueError\<close> when a part is no integer and when
  there are not exactly two parts. \<^verbatim>\<open>sector[:-2]\<close> is empty for a string of fewer than
  two characters, so line 39 raises before \<^verbatim>\<open>sector[-2]\<close> could.
\<close>

definition index_from_end :: "string \<Rightarrow> nat \<Rightarrow> char option" where
  "index_from_end s k = (if 0 < k \<and> k \<le> length s then Some (s ! (length s - k)) else None)"

definition parse_sector :: "string \<Rightarrow> error + int \<times> int \<times> char" where
  "parse_sector sector =
     (case map (py_int 10) (str_split (CHR ''*'') (take (length sector - 2) sector)) of
        [Some repeat, Some size0] \<Rightarrow>
          (case index_from_end sector 2 of
             None \<Rightarrow> Inl IndexError
           | Some u \<Rightarrow>
               (case SIZE_MULTIPLIERS (upper u) of
                  None \<Rightarrow> Inl KeyError
                | Some m \<Rightarrow>
                    (case index_from_end sector 1 of
                       None \<Rightarrow> Inl IndexError
                     | Some mode \<Rightarrow> Inr (repeat, size0 * m, mode))))
      | _ \<Rightarrow> Inl ValueError)"

text \<open>Lines 38 to 63: the loop over \<^verbatim>\<open>layout.split(',')\<close>, from the cursor \<open>a\<close>.\<close>

fun load_layout :: "hexfile \<Rightarrow> 'alt \<Rightarrow> int \<Rightarrow> string list \<Rightarrow> error + 'alt sector list" where
  "load_layout hexfile al a [] = Inr []"
| "load_layout hexfile al a (sector # rest) =
     (case parse_sector sector of
        Inl e \<Rightarrow> Inl e
      | Inr (repeat, sz, mode) \<Rightarrow>
          (let (ys, a') = expand_repeat hexfile al a sz repeat
           in case load_layout hexfile al a' rest of
                Inl e \<Rightarrow> Inl e
              | Inr zs \<Rightarrow> Inr (ys @ zs)))"

text \<open>
  Lines 32 to 63: the loop over the alternate settings, given as the list of pairs
  \<open>(name, alt)\<close> that \<^verbatim>\<open>dfudev.alternates()\<close> returns. The source is a generator that the
  tool consumes with \<^verbatim>\<open>list(...)\<close> before it talks to the device: an exception while
  parsing leaves no list, so the result is the whole list or the error.
\<close>

fun load_sectors :: "(string \<times> 'alt) list \<Rightarrow> hexfile \<Rightarrow> error + 'alt sector list" where
  "load_sectors [] hexfile = Inr []"
| "load_sectors ((name, al) # alts) hexfile =
     (case str_split (CHR ''/'') name of
        [label, addr_s, layout] \<Rightarrow>
          (case py_int 0 addr_s of
             None \<Rightarrow> Inl ValueError
           | Some a \<Rightarrow>
               (case load_layout hexfile al a (str_split (CHR '','') layout) of
                  Inl e \<Rightarrow> Inl e
                | Inr ys \<Rightarrow>
                    (case load_sectors alts hexfile of
                       Inl e \<Rightarrow> Inl e
                     | Inr zs \<Rightarrow> Inr (ys @ zs))))
      | _ \<Rightarrow> Inl ValueError)"

subsection \<open>The sectors of a layout\<close>

text \<open>
  The planner keeps no list of the sectors it walks over: it tests each one and yields
  the touched ones. The functions below record every turn of the same three loops as
  \<open>(alt, start address, size)\<close>, without the test; \<open>load_sectors_walk\<close> proves that the
  planner yields exactly the touched sectors of this walk, in its order.
\<close>

function walk_repeat ::
  "'alt \<Rightarrow> int \<Rightarrow> int \<Rightarrow> int \<Rightarrow> ('alt \<times> int \<times> int) list \<times> int" where
  "walk_repeat al a sz rep =
     (if rep > 0 then
        (let (zs, a') = walk_repeat al (a + sz) sz (rep - 1)
         in ((al, a, sz) # zs, a'))
      else ([], a))"
  by pat_completeness auto
termination
  by (relation "measure (\<lambda>(al, a, sz, rep). nat rep)") auto

fun walk_layout :: "'alt \<Rightarrow> int \<Rightarrow> string list \<Rightarrow> error + ('alt \<times> int \<times> int) list" where
  "walk_layout al a [] = Inr []"
| "walk_layout al a (sector # rest) =
     (case parse_sector sector of
        Inl e \<Rightarrow> Inl e
      | Inr (repeat, sz, mode) \<Rightarrow>
          (let (ys, a') = walk_repeat al a sz repeat
           in case walk_layout al a' rest of
                Inl e \<Rightarrow> Inl e
              | Inr zs \<Rightarrow> Inr (ys @ zs)))"

fun walk_sectors :: "(string \<times> 'alt) list \<Rightarrow> error + ('alt \<times> int \<times> int) list" where
  "walk_sectors [] = Inr []"
| "walk_sectors ((name, al) # alts) =
     (case str_split (CHR ''/'') name of
        [label, addr_s, layout] \<Rightarrow>
          (case py_int 0 addr_s of
             None \<Rightarrow> Inl ValueError
           | Some a \<Rightarrow>
               (case walk_layout al a (str_split (CHR '','') layout) of
                  Inl e \<Rightarrow> Inl e
                | Inr ys \<Rightarrow>
                    (case walk_sectors alts of
                       Inl e \<Rightarrow> Inl e
                     | Inr zs \<Rightarrow> Inr (ys @ zs))))
      | _ \<Rightarrow> Inl ValueError)"

definition is_touched :: "hexfile \<Rightarrow> 'alt \<times> int \<times> int \<Rightarrow> bool" where
  "is_touched hexfile s = (case s of (al, a, sz) \<Rightarrow> touched (segments hexfile) a sz)"

definition planned :: "hexfile \<Rightarrow> 'alt \<times> int \<times> int \<Rightarrow> 'alt sector" where
  "planned hexfile s =
     (case s of (al, a, sz) \<Rightarrow>
        \<lparr>alt = al, addr = a, data = tobinarray hexfile a (a + sz - 1)\<rparr>)"

definition plan :: "hexfile \<Rightarrow> ('alt \<times> int \<times> int) list \<Rightarrow> 'alt sector list" where
  "plan hexfile w = map (planned hexfile) (filter (is_touched hexfile) w)"

text \<open>An address is covered when it lies in one of the segments of the hex file.\<close>

definition covered :: "hexfile \<Rightarrow> int \<Rightarrow> bool" where
  "covered hexfile x = list_ex (\<lambda>(start, en). start \<le> x \<and> x < en) (segments hexfile)"


abbreviation sector_start :: "'alt \<times> int \<times> int \<Rightarrow> int" where
  "sector_start s \<equiv> fst (snd s)"

abbreviation sector_size :: "'alt \<times> int \<times> int \<Rightarrow> int" where
  "sector_size s \<equiv> snd (snd s)"

text \<open>
  A walk is contiguous from \<open>a\<close> when its first sector starts at \<open>a\<close> and every sector
  starts where the one before it ends.
\<close>

fun contiguous :: "int \<Rightarrow> ('alt \<times> int \<times> int) list \<Rightarrow> bool" where
  "contiguous a [] = True"
| "contiguous a (s # w) = (sector_start s = a \<and> contiguous (a + sector_size s) w)"

text \<open>
  The sector groups of a layout as the specification has them, \<open>(repeat, size, mode)\<close>
  for each sector specification, in order.
\<close>

fun parse_layout :: "string list \<Rightarrow> error + (int \<times> int \<times> char) list" where
  "parse_layout [] = Inr []"
| "parse_layout (sector # rest) =
     (case parse_sector sector of
        Inl e \<Rightarrow> Inl e
      | Inr g \<Rightarrow> (case parse_layout rest of Inl e \<Rightarrow> Inl e | Inr gs \<Rightarrow> Inr (g # gs)))"

subsection \<open>The device\<close>

text \<open>
  Modelled from the spec: the class \<^verbatim>\<open>dfuse.DfuDevice\<close> is not in the source tree. A
  method of the device is a call; the calls made so far are the trace, and the device
  answers a call as a function of the trace before it, with an exception or a value.
  Any run of a real device is a run of such a function, since no two calls of a run
  have the same trace before them.

  \<^verbatim>\<open>wait_while_state(state, timeout)\<close> polls the status while the device reports the busy
  state and returns the final status; it fails with \<^verbatim>\<open>TimeoutError\<close> if the device never
  leaves the busy state within the timeout. The device answers this call with the last
  status polled: a status that is no longer the busy state is returned; when it is still
  the busy state the time has run out if a timeout was given, and without a timeout the
  call never returns. The timeout is a number of time units, \<^verbatim>\<open>len(data)/32\<close> in
  \<^verbatim>\<open>erase\<close>, a quotient that the rationals hold exactly.
\<close>

datatype 'alt call =
  Set_alternate 'alt
| Get_state
| Clear_status
| Wait_while_state DfuState "rat option"
| Erase int
| Set_address int
| Write nat "byte list"

record 'alt dfudev =
  on_set_alternate :: "'alt call list \<Rightarrow> 'alt \<Rightarrow> error + unit"
  on_get_state :: "'alt call list \<Rightarrow> error + DfuState"
  on_clear_status :: "'alt call list \<Rightarrow> error + unit"
  on_wait_while_state :: "'alt call list \<Rightarrow> DfuState \<Rightarrow> rat option \<Rightarrow> error + DeviceStatus"
  on_erase :: "'alt call list \<Rightarrow> int \<Rightarrow> error + unit"
  on_set_address :: "'alt call list \<Rightarrow> int \<Rightarrow> error + unit"
  on_write :: "'alt call list \<Rightarrow> nat \<Rightarrow> byte list \<Rightarrow> error + unit"

text \<open>
  What running a piece of the tool gives: a value, an exception, or no return at all;
  together with the trace it leaves.
\<close>

datatype 'a outcome = Returns 'a | Raises error | Hangs

type_synonym ('alt, 'a) action = "'alt call list \<Rightarrow> 'a outcome \<times> 'alt call list"

definition return :: "'a \<Rightarrow> ('alt, 'a) action" where
  "return x tr = (Returns x, tr)"

definition raise :: "error \<Rightarrow> ('alt, 'a) action" where
  "raise e tr = (Raises e, tr)"

text \<open>One statement after another: the second runs only when the first returns.\<close>

definition then_do :: "('alt, 'a) action \<Rightarrow> ('a \<Rightarrow> ('alt, 'b) action) \<Rightarrow> ('alt, 'b) action" where
  "then_do m f tr =
     (case m tr of
        (Returns x, tr') \<Rightarrow> f x tr'
      | (Raises e, tr') \<Rightarrow> (Raises e, tr')
      | (Hangs, tr') \<Rightarrow> (Hangs, tr'))"

text \<open>A call \<open>c\<close> that the device answers with \<open>r\<close>.\<close>

definition invoke :: "'alt call \<Rightarrow> error + 'a \<Rightarrow> ('alt, 'a) action" where
  "invoke c r tr = ((case r of Inl e \<Rightarrow> Raises e | Inr x \<Rightarrow> Returns x), tr @ [c])"

definition dfudev_set_alternate :: "'alt dfudev \<Rightarrow> 'alt \<Rightarrow> ('alt, unit) action" where
  "dfudev_set_alternate dev al tr = invoke (Set_alternate al) (on_set_alternate dev tr al) tr"

definition dfudev_get_state :: "'alt dfudev \<Rightarrow> ('alt, DfuState) action" where
  "dfudev_get_state dev tr = invoke Get_state (on_get_state dev tr) tr"

definition dfudev_clear_status :: "'alt dfudev \<Rightarrow> ('alt, unit) action" where
  "dfudev_clear_status dev tr = invoke Clear_status (on_clear_status dev tr) tr"

definition dfudev_erase :: "'alt dfudev \<Rightarrow> int \<Rightarrow> ('alt, unit) action" where
  "dfudev_erase dev a tr = invoke (Erase a) (on_erase dev tr a) tr"

definition dfudev_set_address :: "'alt dfudev \<Rightarrow> int \<Rightarrow> ('alt, unit) action" where
  "dfudev_set_address dev a tr = invoke (Set_address a) (on_set_address dev tr a) tr"

definition dfudev_write :: "'alt dfudev \<Rightarrow> nat \<Rightarrow> byte list \<Rightarrow> ('alt, unit) action" where
  "dfudev_write dev n block tr = invoke (Write n block) (on_write dev tr n block) tr"

definition dfudev_wait_while_state ::
  "'alt dfudev \<Rightarrow> DfuState \<Rightarrow> rat option \<Rightarrow> ('alt, DeviceStatus) action" where
  "dfudev_wait_while_state dev s timeout tr =
     ((case on_wait_while_state dev tr s timeout of
         Inl e \<Rightarrow> Raises e
       | Inr status \<Rightarrow>
           if state status \<noteq> s then Returns status
           else (case timeout of Some t \<Rightarrow> Raises TimeoutError | None \<Rightarrow> Hangs)),
      tr @ [Wait_while_state s timeout])"

subsection \<open>\<^verbatim>\<open>set_alternate_safe\<close>, \<^verbatim>\<open>erase\<close> and \<^verbatim>\<open>flash\<close>\<close>

text \<open>Lines 65 to 69.\<close>

definition set_alternate_safe :: "'alt dfudev \<Rightarrow> 'alt \<Rightarrow> ('alt, unit) action" where
  "set_alternate_safe dev al =
     then_do (dfudev_set_alternate dev al) (\<lambda>_.
     then_do (dfudev_get_state dev) (\<lambda>st.
       if st = DFU_ERROR then
         then_do (dfudev_clear_status dev) (\<lambda>_.
         then_do (dfudev_wait_while_state dev DFU_ERROR None) (\<lambda>_.
         return ()))
       else return ()))"

text \<open>
  Lines 78, 88 and 98: \<^verbatim>\<open>raise RuntimeError("... Device Status: %r" % status)\<close>. The
  message is built before the exception is. The operator \<^verbatim>\<open>%\<close> takes a tuple on its
  right as the list of its arguments, and a status with a component \<^verbatim>\<open>[1]\<close> has at least
  two, more than the one conversion of the format: Python raises \<^verbatim>\<open>TypeError\<close>, not all
  arguments converted during string formatting. Any other object is the one argument,
  and the \<^verbatim>\<open>RuntimeError\<close> carries its representation.
\<close>

definition status_error :: "DeviceStatus \<Rightarrow> error" where
  "status_error status = (if is_tuple status then TypeError else RuntimeError status)"

text \<open>
  Lines 71 to 79. The progress lines that \<^verbatim>\<open>erase\<close> and \<^verbatim>\<open>flash\<close> print are not calls of
  the device and are left out.
\<close>

fun erase :: "'alt dfudev \<Rightarrow> 'alt sector list \<Rightarrow> ('alt, unit) action" where
  "erase dev [] = return ()"
| "erase dev (sector # sectors) =
     then_do (set_alternate_safe dev (alt sector)) (\<lambda>_.
     then_do (dfudev_erase dev (addr sector)) (\<lambda>_.
     then_do (dfudev_wait_while_state dev DFU_DOWNLOAD_BUSY
                (Some (of_nat (length (data sector)) / 32))) (\<lambda>status.
       if state status \<noteq> DFU_DOWNLOAD_IDLE then raise (status_error status)
       else erase dev sectors)))"

text \<open>
  Line 91: \<^verbatim>\<open>range(0, len(data), TRANSFER_SIZE)\<close> and the slices
  \<^verbatim>\<open>data[i:i + TRANSFER_SIZE]\<close>.
\<close>

definition py_range :: "nat \<Rightarrow> nat \<Rightarrow> nat \<Rightarrow> nat list" where
  "py_range start stop step =
     map (\<lambda>k. start + k * step) [0..<(stop - start + step - 1) div step]"

definition blocks :: "byte list \<Rightarrow> byte list list" where
  "blocks dat =
     map (\<lambda>i. take TRANSFER_SIZE (drop i dat)) (py_range 0 (length dat) TRANSFER_SIZE)"

text \<open>Lines 92 to 98: the loop over \<^verbatim>\<open>enumerate(blocks)\<close>, from block number \<open>blocknum\<close>.\<close>

fun write_blocks :: "'alt dfudev \<Rightarrow> nat \<Rightarrow> byte list list \<Rightarrow> ('alt, unit) action" where
  "write_blocks dev blocknum [] = return ()"
| "write_blocks dev blocknum (block # rest) =
     then_do (dfudev_write dev blocknum block) (\<lambda>_.
     then_do (dfudev_wait_while_state dev DFU_DOWNLOAD_BUSY None) (\<lambda>status.
       if state status \<noteq> DFU_DOWNLOAD_IDLE then raise (status_error status)
       else write_blocks dev (Suc blocknum) rest))"

text \<open>Lines 81 to 99.\<close>

fun flash :: "'alt dfudev \<Rightarrow> 'alt sector list \<Rightarrow> ('alt, unit) action" where
  "flash dev [] = return ()"
| "flash dev (sector # sectors) =
     then_do (set_alternate_safe dev (alt sector)) (\<lambda>_.
     then_do (dfudev_set_address dev (addr sector)) (\<lambda>_.
     then_do (dfudev_wait_while_state dev DFU_DOWNLOAD_BUSY None) (\<lambda>status.
       if state status \<noteq> DFU_DOWNLOAD_IDLE then raise (status_error status)
       else
         then_do (write_blocks dev 0 (blocks (data sector))) (\<lambda>_.
         flash dev sectors))))"

subsection \<open>What a run of the device calls looks like\<close>

text \<open>
  The way a call ends a run, if it does: the device raises; a wait finds the device
  still in the busy state (a timeout, or no return without one); or a wait for
  \<^verbatim>\<open>DFU_DOWNLOAD_BUSY\<close> ends in a state other than \<^verbatim>\<open>DFU_DOWNLOAD_IDLE\<close>, for which \<^verbatim>\<open>erase\<close>
  and \<^verbatim>\<open>flash\<close> raise the error of lines 78, 88 and 98.
\<close>

definition of_reply :: "error + 'a \<Rightarrow> unit outcome option" where
  "of_reply r = (case r of Inl e \<Rightarrow> Some (Raises e) | Inr x \<Rightarrow> None)"

fun call_failure :: "'alt dfudev \<Rightarrow> 'alt call list \<Rightarrow> 'alt call \<Rightarrow> unit outcome option" where
  "call_failure dev tr (Set_alternate al) = of_reply (on_set_alternate dev tr al)"
| "call_failure dev tr Get_state = of_reply (on_get_state dev tr)"
| "call_failure dev tr Clear_status = of_reply (on_clear_status dev tr)"
| "call_failure dev tr (Erase a) = of_reply (on_erase dev tr a)"
| "call_failure dev tr (Set_address a) = of_reply (on_set_address dev tr a)"
| "call_failure dev tr (Write n block) = of_reply (on_write dev tr n block)"
| "call_failure dev tr (Wait_while_state s timeout) =
     (case on_wait_while_state dev tr s timeout of
        Inl e \<Rightarrow> Some (Raises e)
      | Inr status \<Rightarrow>
          if state status = s
          then (case timeout of Some t \<Rightarrow> Some (Raises TimeoutError) | None \<Rightarrow> Some Hangs)
          else if s = DFU_DOWNLOAD_BUSY \<and> state status \<noteq> DFU_DOWNLOAD_IDLE
          then Some (Raises (status_error status))
          else None)"

text \<open>
  The calls \<open>cs\<close> made after the trace \<open>tr\<close> with the outcome \<open>out\<close>: every call but the
  last went well; the run returns when the last one went well too, and otherwise it
  ends as the last call does, with no call after it.
\<close>

fun follows :: "'alt dfudev \<Rightarrow> 'alt call list \<Rightarrow> 'alt call list \<Rightarrow> unit outcome \<Rightarrow> bool" where
  "follows dev tr [] out = (out = Returns ())"
| "follows dev tr (c # cs) out =
     (case call_failure dev tr c of
        Some f \<Rightarrow> cs = [] \<and> out = f
      | None \<Rightarrow> follows dev (tr @ [c]) cs out)"

text \<open>
  The calls of \<^verbatim>\<open>set_alternate_safe\<close>, of \<^verbatim>\<open>erase\<close> and of \<^verbatim>\<open>flash\<close> when no call fails.
  The two calls that clear an error depend on the state the device reports.
\<close>

definition safe_script :: "'alt dfudev \<Rightarrow> 'alt call list \<Rightarrow> 'alt \<Rightarrow> 'alt call list" where
  "safe_script dev tr al =
     [Set_alternate al, Get_state] @
     (if on_get_state dev (tr @ [Set_alternate al]) = Inr DFU_ERROR
      then [Clear_status, Wait_while_state DFU_ERROR None] else [])"

fun erase_script :: "'alt dfudev \<Rightarrow> 'alt call list \<Rightarrow> 'alt sector list \<Rightarrow> 'alt call list" where
  "erase_script dev tr [] = []"
| "erase_script dev tr (sector # sectors) =
     (let cs = safe_script dev tr (alt sector) @
               [Erase (addr sector),
                Wait_while_state DFU_DOWNLOAD_BUSY (Some (of_nat (length (data sector)) / 32))]
      in cs @ erase_script dev (tr @ cs) sectors)"

fun write_script :: "nat \<Rightarrow> byte list list \<Rightarrow> 'alt call list" where
  "write_script blocknum [] = []"
| "write_script blocknum (block # rest) =
     Write blocknum block # Wait_while_state DFU_DOWNLOAD_BUSY None #
     write_script (Suc blocknum) rest"

fun flash_script :: "'alt dfudev \<Rightarrow> 'alt call list \<Rightarrow> 'alt sector list \<Rightarrow> 'alt call list" where
  "flash_script dev tr [] = []"
| "flash_script dev tr (sector # sectors) =
     (let cs = safe_script dev tr (alt sector) @
               [Set_address (addr sector), Wait_while_state DFU_DOWNLOAD_BUSY None] @
               write_script 0 (blocks (data sector))
      in cs @ flash_script dev (tr @ cs) sectors)"

text \<open>
  A run of the action \<open>m\<close> after the trace \<open>tr\<close> follows the script: it makes the calls of
  the script in order until one fails, and all of them when it returns.
\<close>

definition void :: "'a outcome \<Rightarrow> unit outcome" where
  "void out = (case out of Returns x \<Rightarrow> Returns () | Raises e \<Rightarrow> Raises e | Hangs \<Rightarrow> Hangs)"

definition new_calls :: "('alt, 'a) action \<Rightarrow> 'alt call list \<Rightarrow> 'alt call list" where
  "new_calls m tr = drop (length tr) (snd (m tr))"

definition runs_script ::
  "'alt dfudev \<Rightarrow> ('alt, 'a) action \<Rightarrow> 'alt call list \<Rightarrow> 'alt call list \<Rightarrow> bool" where
  "runs_script dev m tr script \<longleftrightarrow>
     snd (m tr) = tr @ new_calls m tr \<and>
     prefix (new_calls m tr) script \<and>
     follows dev tr (new_calls m tr) (void (fst (m tr))) \<and>
     (void (fst (m tr)) = Returns () \<longrightarrow> new_calls m tr = script)"

text \<open>The addresses of the erase calls and the numbered blocks of the write calls of a trace.\<close>

definition erased :: "'alt call list \<Rightarrow> int list" where
  "erased cs = concat (map (\<lambda>c. case c of Erase a \<Rightarrow> [a] | _ \<Rightarrow> []) cs)"

definition written :: "'alt call list \<Rightarrow> (nat \<times> byte list) list" where
  "written cs = concat (map (\<lambda>c. case c of Write n b \<Rightarrow> [(n, b)] | _ \<Rightarrow> []) cs)"

text \<open>
  A device that answers every call: it reports the state \<open>gs\<close> to \<^verbatim>\<open>get_state\<close>, and the
  last status of a wait that starts after \<open>n\<close> calls is a tuple with the state \<open>ws n\<close>.
\<close>

definition sample_device :: "DfuState \<Rightarrow> (nat \<Rightarrow> DfuState) \<Rightarrow> 'alt dfudev" where
  "sample_device gs ws =
     \<lparr>on_set_alternate = (\<lambda>tr al. Inr ()),
      on_get_state = (\<lambda>tr. Inr gs),
      on_clear_status = (\<lambda>tr. Inr ()),
      on_wait_while_state =
        (\<lambda>tr s t. Inr \<lparr>is_tuple = True, status_code = 0, state = ws (length tr),
                          poll_timeout = 0\<rparr>),
      on_erase = (\<lambda>tr a. Inr ()),
      on_set_address = (\<lambda>tr a. Inr ()),
      on_write = (\<lambda>tr n b. Inr ())\<rparr>"

subsection \<open>Descriptors as the specification describes them\<close>

text \<open>
  A sector specification in the words of the specification: \<^verbatim>\<open>repeat*size\<close>, both
  integers (as \<^verbatim>\<open>int\<close> accepts them), then a unit that is blank, \<^verbatim>\<open>K\<close> or \<^verbatim>\<open>M\<close> in either
  case, then one character for the access mode.
\<close>

definition wellformed_sector :: "string \<Rightarrow> bool" where
  "wellformed_sector s \<longleftrightarrow>
     (\<exists>r z u m. s = r @ CHR ''*'' # z @ [u, m] \<and> CHR ''*'' \<notin> set r \<and> CHR ''*'' \<notin> set z \<and>
        py_int 10 r \<noteq> None \<and> py_int 10 z \<noteq> None \<and>
        upper u \<in> {CHR '' '', CHR ''K'', CHR ''M''})"

text \<open>
  Two sector specifications that differ in the access mode at most, which is the last
  character, and two descriptors whose fields agree but for the access modes of their
  sector specifications.
\<close>

definition same_but_mode :: "string \<Rightarrow> string \<Rightarrow> bool" where
  "same_but_mode s t \<longleftrightarrow> length s = length t \<and> butlast s = butlast t"

definition differ_only_in_mode :: "string \<Rightarrow> string \<Rightarrow> bool" where
  "differ_only_in_mode n1 n2 =
     (case (str_split (CHR ''/'') n1, str_split (CHR ''/'') n2) of
        ([l1, a1, y1], [l2, a2, y2]) \<Rightarrow>
          l1 = l2 \<and> a1 = a2 \<and>
          list_all2 same_but_mode (str_split (CHR '','') y1) (str_split (CHR '','') y2)
      | _ \<Rightarrow> False)"

section \<open>Proofs\<close>

subsection \<open>The planner yields the touched sectors of the walk\<close>

declare expand_repeat.simps [simp del] walk_repeat.simps [simp del]

lemma plan_append: "plan h (xs @ ys) = plan h xs @ plan h ys"
  by (simp add: plan_def)

lemma expand_repeat_walk:
  "expand_repeat h al a sz rep =
     (plan h (fst (walk_repeat al a sz rep)), snd (walk_repeat al a sz rep))"
proof (induction al a sz rep rule: walk_repeat.induct)
  case (1 al a sz rep)
  show ?case
  proof (cases "rep > 0")
    case True
    with 1 show ?thesis
      by (subst expand_repeat.simps, subst (1 2) walk_repeat.simps)
         (simp add: plan_def is_touched_def planned_def split: prod.splits)
  next
    case False
    then show ?thesis
      by (subst expand_repeat.simps, subst (1 2) walk_repeat.simps) (simp add: plan_def)
  qed
qed

lemma load_layout_walk:
  "load_layout h al a ss = map_sum id (plan h) (walk_layout al a ss)"
proof (induction ss arbitrary: a)
  case Nil
  show ?case by (simp add: plan_def)
next
  case (Cons s ss)
  show ?case
    by (simp add: Cons expand_repeat_walk plan_append split: sum.splits prod.splits)
qed

lemma load_sectors_walk:
  "load_sectors alts h = map_sum id (plan h) (walk_sectors alts)"
proof (induction alts)
  case Nil
  show ?case by (simp add: plan_def)
next
  case (Cons p alts)
  obtain name al where p: "p = (name, al)" by (cases p)
  show ?case
    unfolding p
    by (simp add: Cons load_layout_walk plan_append split: sum.splits list.splits option.splits)
qed

subsection \<open>Segments of the hex file\<close>

lemma runs_lt: "(s, e) \<in> set (runs as) \<Longrightarrow> s < e"
proof (induction as arbitrary: s e)
  case Nil
  then show ?case by simp
next
  case (Cons a as)
  then show ?case
    by (cases "runs as") (auto split: if_splits, force+)
qed

lemma runs_cover: "(\<exists>(s, e) \<in> set (runs as). s \<le> x \<and> x < e) \<longleftrightarrow> x \<in> set as"
proof (induction as)
  case Nil
  show ?case by simp
next
  case (Cons a as)
  show ?case
  proof (cases "runs as")
    case Nil
    with Cons show ?thesis by auto
  next
    case (Cons p rs)
    obtain s e where p: "p = (s, e)" by (cases p)
    have "s < e" using runs_lt[of s e as] Cons p by simp
    with Cons.IH Cons p show ?thesis
      by (auto split: if_splits)
  qed
qed

lemma covered_iff: "covered h x \<longleftrightarrow> map_of h x \<noteq> None"
proof -
  have "covered h x \<longleftrightarrow> (\<exists>(s, e) \<in> set (runs (addresses h)). s \<le> x \<and> x < e)"
    by (auto simp: covered_def segments_def list_ex_iff)
  also have "\<dots> \<longleftrightarrow> x \<in> fst ` set h"
    by (simp add: runs_cover addresses_def)
  also have "\<dots> \<longleftrightarrow> map_of h x \<noteq> None"
    by (simp add: map_of_eq_None_iff)
  finally show ?thesis .
qed

lemma segments_lt: "(s, e) \<in> set (segments h) \<Longrightarrow> s < e"
  by (simp add: segments_def runs_lt)

lemma touched_iff:
  "touched segs a sz \<longleftrightarrow>
     (\<exists>(start, en) \<in> set segs. start < a \<and> en > a \<or> a \<le> start \<and> start < a + sz)"
  by (induction segs a sz rule: touched.induct) auto

subsection \<open>The walk is contiguous\<close>

lemma contiguous_append:
  "contiguous a (u @ v) \<longleftrightarrow>
     contiguous a u \<and> contiguous (a + sum_list (map sector_size u)) v"
  by (induction u arbitrary: a) (auto simp: add.assoc)

lemma walk_repeat_contiguous:
  "contiguous a (fst (walk_repeat al a sz rep)) \<and>
   snd (walk_repeat al a sz rep) = a + sum_list (map sector_size (fst (walk_repeat al a sz rep)))"
proof (induction al a sz rep rule: walk_repeat.induct)
  case (1 al a sz rep)
  show ?case
  proof (cases "rep > 0")
    case True
    with 1 show ?thesis
      by (subst (1 2 3) walk_repeat.simps) (simp add: case_prod_beta add.assoc)
  next
    case False
    then show ?thesis
      by (subst (1 2 3) walk_repeat.simps) simp
  qed
qed

lemma walk_repeat_groups:
  "map (\<lambda>s. (fst s, sector_size s)) (fst (walk_repeat al a sz rep)) = replicate (nat rep) (al, sz)"
proof (induction al a sz rep rule: walk_repeat.induct)
  case (1 al a sz rep)
  show ?case
  proof (cases "rep > 0")
    case True
    then have "nat rep = Suc (nat (rep - 1))" by simp
    with 1 True show ?thesis
      by (subst walk_repeat.simps) (simp add: case_prod_beta)
  next
    case False
    then show ?thesis
      by (subst walk_repeat.simps) simp
  qed
qed

lemma walk_layout_contiguous:
  "walk_layout al a ss = Inr w \<Longrightarrow> contiguous a w"
proof (induction ss arbitrary: a w)
  case Nil
  then show ?case by simp
next
  case (Cons s ss)
  from Cons.prems obtain r sz m zs where
    ps: "parse_sector s = Inr (r, sz, m)" and
    zs: "walk_layout al (snd (walk_repeat al a sz r)) ss = Inr zs" and
    w: "w = fst (walk_repeat al a sz r) @ zs"
    by (auto simp: case_prod_beta split: sum.splits)
  from Cons.IH[OF zs] walk_repeat_contiguous[of a al sz r] show ?case
    by (simp add: w contiguous_append)
qed

lemma walk_layout_groups:
  "walk_layout al a ss = Inr w \<Longrightarrow>
     \<exists>gs. parse_layout ss = Inr gs \<and>
          map (\<lambda>s. (fst s, sector_size s)) w =
            concat (map (\<lambda>(r, sz, m). replicate (nat r) (al, sz)) gs)"
proof (induction ss arbitrary: a w)
  case Nil
  then show ?case by simp
next
  case (Cons s ss)
  from Cons.prems obtain r sz m zs where
    ps: "parse_sector s = Inr (r, sz, m)" and
    zs: "walk_layout al (snd (walk_repeat al a sz r)) ss = Inr zs" and
    w: "w = fst (walk_repeat al a sz r) @ zs"
    by (auto simp: case_prod_beta split: sum.splits)
  from Cons.IH[OF zs] obtain gs where "parse_layout ss = Inr gs"
    "map (\<lambda>s. (fst s, sector_size s)) zs =
       concat (map (\<lambda>(r, sz, m). replicate (nat r) (al, sz)) gs)"
    by blast
  then show ?case
    by (simp add: w ps walk_repeat_groups)
qed

lemma contiguous_nth:
  "contiguous a w \<Longrightarrow> Suc i < length w \<Longrightarrow>
     sector_start (w ! i) + sector_size (w ! i) = sector_start (w ! Suc i)"
proof (induction w arbitrary: a i)
  case Nil
  then show ?case by simp
next
  case (Cons s w)
  then show ?case
    by (cases i; cases w) auto
qed

lemma contiguous_lower:
  "contiguous a w \<Longrightarrow> \<forall>s \<in> set w. 0 < sector_size s \<Longrightarrow> \<forall>s \<in> set w. a \<le> sector_start s"
proof (induction w arbitrary: a)
  case Nil
  then show ?case by simp
next
  case (Cons s w)
  then show ?case by fastforce
qed

lemma contiguous_increasing:
  "contiguous a w \<Longrightarrow> \<forall>s \<in> set w. 0 < sector_size s \<Longrightarrow>
     sorted_wrt (<) (map sector_start w)"
proof (induction w arbitrary: a)
  case Nil
  then show ?case by simp
next
  case (Cons s w)
  then have "\<forall>t \<in> set w. a + sector_size s \<le> sector_start t"
    using contiguous_lower[of "a + sector_size s" w] by simp
  with Cons show ?case by fastforce
qed

subsection \<open>Reading the payload\<close>

lemma walk_sectors_single:
  assumes "walk_sectors [(name, al)] = Inr w"
  shows "\<exists>label addr_s layout a.
           str_split (CHR ''/'') name = [label, addr_s, layout] \<and> py_int 0 addr_s = Some a \<and>
           walk_layout al a (str_split (CHR '','') layout) = Inr w"
  using assms by (auto split: list.splits option.splits sum.splits)

lemma contiguous_hd: "contiguous a w \<Longrightarrow> w \<noteq> [] \<Longrightarrow> sector_start (hd w) = a"
  by (cases w) auto

lemma length_tobinarray: "0 < sz \<Longrightarrow> length (tobinarray h a (a + sz - 1)) = nat sz"
  by (simp add: tobinarray_def)

lemma nth_tobinarray:
  "a \<le> e \<Longrightarrow> i < length (tobinarray h a e) \<Longrightarrow>
     tobinarray h a e ! i = read_byte h (a + int i)"
  by (simp add: tobinarray_def)

lemma read_byte_uncovered: "\<not> covered h x \<Longrightarrow> read_byte h x = 0xFF"
  by (simp add: covered_iff read_byte_def)

subsection \<open>Claim C4: the sectors of a layout are contiguous\<close>

text \<open>
  C4, amended. For every descriptor that parses, the sectors walked for it are the
  sector groups in their order, each group repeated \<open>repeat\<close> times; the first one starts
  at the base address and every sector ends where the next one starts, whether or not
  the hex file touches it (the planner yields the touched ones of this walk). The start
  addresses are strictly increasing when every sector size is positive. The claim as
  stated, for every layout, fails for a sector size of zero, which the parser accepts:
  two sectors of size zero start at the same address.
\<close>
theorem layout_sectors_contiguous:
  assumes "walk_sectors [(name, al)] = Inr w"
  shows "load_sectors [(name, al)] h = Inr (plan h w) \<and>
     (\<exists>label addr_s layout a gs.
        str_split (CHR ''/'') name = [label, addr_s, layout] \<and> py_int 0 addr_s = Some a \<and>
        parse_layout (str_split (CHR '','') layout) = Inr gs \<and>
        map (\<lambda>s. (fst s, sector_size s)) w =
          concat (map (\<lambda>(r, sz, m). replicate (nat r) (al, sz)) gs) \<and>
        (w \<noteq> [] \<longrightarrow> sector_start (hd w) = a)) \<and>
     (\<forall>i. Suc i < length w \<longrightarrow>
        sector_start (w ! i) + sector_size (w ! i) = sector_start (w ! Suc i)) \<and>
     ((\<forall>s \<in> set w. 0 < sector_size s) \<longrightarrow> sorted_wrt (<) (map sector_start w))"
proof -
  from walk_sectors_single[OF assms] obtain label addr_s layout a where
    sp: "str_split (CHR ''/'') name = [label, addr_s, layout]" and
    pa: "py_int 0 addr_s = Some a" and
    wl: "walk_layout al a (str_split (CHR '','') layout) = Inr w"
    by blast
  have c: "contiguous a w" by (rule walk_layout_contiguous[OF wl])
  from walk_layout_groups[OF wl] obtain gs where
    gs: "parse_layout (str_split (CHR '','') layout) = Inr gs"
        "map (\<lambda>s. (fst s, sector_size s)) w =
           concat (map (\<lambda>(r, sz, m). replicate (nat r) (al, sz)) gs)"
    by blast
  have 1: "load_sectors [(name, al)] h = Inr (plan h w)"
    unfolding load_sectors_walk assms by simp
  have 2: "\<exists>label addr_s layout a gs.
        str_split (CHR ''/'') name = [label, addr_s, layout] \<and> py_int 0 addr_s = Some a \<and>
        parse_layout (str_split (CHR '','') layout) = Inr gs \<and>
        map (\<lambda>s. (fst s, sector_size s)) w =
          concat (map (\<lambda>(r, sz, m). replicate (nat r) (al, sz)) gs) \<and>
        (w \<noteq> [] \<longrightarrow> sector_start (hd w) = a)"
    using sp pa gs contiguous_hd[OF c] by blast
  have 3: "\<forall>i. Suc i < length w \<longrightarrow>
        sector_start (w ! i) + sector_size (w ! i) = sector_start (w ! Suc i)"
    using contiguous_nth[OF c] by blast
  have 4: "(\<forall>s \<in> set w. 0 < sector_size s) \<longrightarrow> sorted_wrt (<) (map sector_start w)"
    using contiguous_increasing[OF c] by blast
  from 1 2 3 4 show ?thesis by blast
qed

theorem layout_sectors_contiguous_witness:
  "walk_sectors [(''@Flash/0x08000000/02*016Kg,01*064Kg'', 0::nat)] =
     Inr [(0, 0x08000000, 16384), (0, 0x08004000, 16384), (0, 0x08008000, 65536)] \<and>
   sorted_wrt (<) (map sector_start
     [(0::nat, 0x08000000, 16384), (0, 0x08004000, 16384), (0, 0x08008000, 65536)])"
proof -
  have w: "walk_sectors [(''@Flash/0x08000000/02*016Kg,01*064Kg'', 0::nat)] =
     Inr [(0, 0x08000000, 16384), (0, 0x08004000, 16384), (0, 0x08008000, 65536)]"
    by code_simp
  have p: "\<forall>s \<in> set [(0::nat, 0x08000000::int, 16384::int), (0, 0x08004000, 16384),
      (0, 0x08008000, 65536)]. 0 < sector_size s"
    by simp
  have "sorted_wrt (<) (map sector_start
     [(0::nat, 0x08000000, 16384), (0, 0x08004000, 16384), (0, 0x08008000, 65536)])"
    by (rule layout_sectors_contiguous[OF w, THEN conjunct2, THEN conjunct2, THEN conjunct2,
      THEN mp, OF p])
  with w show ?thesis by (rule_tac conjI)
qed

theorem layout_increasing_counterexample:
  "walk_sectors [(''@F/0/02*000 g'', 0::nat)] = Inr [(0, 0, 0), (0, 0, 0)] \<and>
   \<not> sorted_wrt (<) (map sector_start [(0::nat, 0::int, 0::int), (0, 0, 0)]) \<and>
   map_sum id (map addr) (load_sectors [(''@F/1/02*000 g'', 0::nat)] [(0, 0x12), (1, 0x34)])
     = Inr [1, 1]"
proof -
  have a: "walk_sectors [(''@F/0/02*000 g'', 0::nat)] = Inr [(0, 0, 0), (0, 0, 0)]"
    by code_simp
  have b: "\<not> sorted_wrt (<) (map sector_start [(0::nat, 0::int, 0::int), (0, 0, 0)])"
    by simp
  have c: "map_sum id (map addr)
      (load_sectors [(''@F/1/02*000 g'', 0::nat)] [(0, 0x12), (1, 0x34)]) = Inr [1, 1]"
    by code_simp
  from a b c show ?thesis by (intro conjI)
qed

subsection \<open>Claim C1: the overlap test\<close>

text \<open>
  C1, amended. A sector at \<open>a\<close> of size \<open>sz\<close> is touched exactly when some segment
  \<open>[start, en)\<close> of the hex file has \<open>start < a\<close> and \<open>en > a\<close>, or \<open>a \<le> start < a + sz\<close>;
  the planner yields exactly the touched sectors of the walk. A segment that ends at \<open>a\<close>
  satisfies neither condition. A segment with \<open>en = a + 1\<close> and \<open>start \<le> a\<close> marks the
  sector touched when \<open>start < a\<close> or the sector size is positive. The claim as stated,
  for every size, fails for the segment \<open>[a, a + 1)\<close> and a sector of size zero, which the
  parser accepts.
\<close>
theorem touched_overlap_test:
  "(touched (segments h) a sz \<longleftrightarrow>
      (\<exists>(start, en) \<in> set (segments h).
          start < a \<and> en > a \<or> a \<le> start \<and> start < a + sz)) \<and>
   (\<forall>(start, en) \<in> set (segments h).
      en = a \<longrightarrow> \<not> (start < a \<and> en > a \<or> a \<le> start \<and> start < a + sz)) \<and>
   (\<forall>(start, en) \<in> set (segments h).
      en = a + 1 \<and> start \<le> a \<and> (start < a \<or> 0 < sz) \<longrightarrow> touched (segments h) a sz) \<and>
   (walk_sectors alts = Inr w \<longrightarrow>
      load_sectors alts h = Inr (map (planned h) (filter (is_touched h) w)) \<and>
      (\<forall>s \<in> set w. is_touched h s \<longleftrightarrow> touched (segments h) (sector_start s) (sector_size s)))"
proof -
  have 1: "touched (segments h) a sz \<longleftrightarrow>
      (\<exists>(start, en) \<in> set (segments h).
          start < a \<and> en > a \<or> a \<le> start \<and> start < a + sz)"
    by (rule touched_iff)
  have 2: "\<forall>(start, en) \<in> set (segments h).
      en = a \<longrightarrow> \<not> (start < a \<and> en > a \<or> a \<le> start \<and> start < a + sz)"
    using segments_lt[of _ _ h] by fastforce
  have 3: "\<forall>(start, en) \<in> set (segments h).
      en = a + 1 \<and> start \<le> a \<and> (start < a \<or> 0 < sz) \<longrightarrow> touched (segments h) a sz"
  proof (clarify)
    fix start en
    assume m: "(start, a + 1) \<in> set (segments h)" "start \<le> a" "start < a \<or> 0 < sz"
    show "touched (segments h) a (sz::int)"
      unfolding touched_iff using m by (intro bexI[of _ "(start, a + 1)"]) auto
  qed
  have 4: "walk_sectors alts = Inr w \<longrightarrow>
      load_sectors alts h = Inr (map (planned h) (filter (is_touched h) w)) \<and>
      (\<forall>s \<in> set w. is_touched h s \<longleftrightarrow> touched (segments h) (sector_start s) (sector_size s))"
    by (simp add: load_sectors_walk plan_def is_touched_def case_prod_beta)
  from 1 2 3 4 show ?thesis by (intro conjI)
qed

theorem touched_overlap_test_witness:
  "segments [(0x08004000, 0x12)] = [(0x08004000, 0x08004001)] \<and>
   touched (segments [(0x08004000, 0x12)]) 0x08004000 16384 \<and>
   \<not> touched (segments [(0x08004000, 0x12)]) 0x08004001 16384 \<and>
   load_sectors [(''@Flash/0x08004000/02*001 g'', 0::nat)] [(0x08004000, 0x12)]
     = Inr [\<lparr>alt = 0, addr = 0x08004000, data = [0x12]\<rparr>]"
proof -
  let ?h = "[(0x08004000, 0x12)] :: hexfile"
  have s: "segments ?h = [(0x08004000, 0x08004001)]"
    by code_simp
  have m: "(0x08004000, 0x08004001) \<in> set (segments ?h)"
    by (simp add: s)
  note T = touched_overlap_test[where h = ?h]
  have a: "touched (segments ?h) 0x08004000 16384"
    using T[where a = "0x08004000" and sz = 16384, THEN conjunct2, THEN conjunct2, THEN conjunct1] m
    by fastforce
  have "\<not> (\<exists>(start, en) \<in> set (segments ?h).
          start < 0x08004001 \<and> en > 0x08004001 \<or>
          0x08004001 \<le> start \<and> start < 0x08004001 + 16384)"
    using T[where a = "0x08004001" and sz = 16384, THEN conjunct2, THEN conjunct1] by (simp add: s)
  then have b: "\<not> touched (segments ?h) 0x08004001 16384"
    using T[where a = "0x08004001" and sz = 16384, THEN conjunct1] by blast
  have w: "walk_sectors [(''@Flash/0x08004000/02*001 g'', 0::nat)] =
      Inr [(0, 0x08004000, 1), (0, 0x08004001, 1)]"
    by code_simp
  have "load_sectors [(''@Flash/0x08004000/02*001 g'', 0::nat)] ?h
      = Inr (map (planned ?h) (filter (is_touched ?h) [(0, 0x08004000, 1), (0, 0x08004001, 1)]))"
    using T[where alts = "[(''@Flash/0x08004000/02*001 g'', 0::nat)]"
        and w = "[(0, 0x08004000, 1), (0, 0x08004001, 1)]" and a = 0 and sz = 0,
        THEN conjunct2, THEN conjunct2, THEN conjunct2] w by blast
  also have "map (planned ?h) (filter (is_touched ?h) [(0::nat, 0x08004000, 1), (0, 0x08004001, 1)])
      = [\<lparr>alt = 0, addr = 0x08004000, data = [0x12]\<rparr>]"
    by code_simp
  finally have c: "load_sectors [(''@Flash/0x08004000/02*001 g'', 0::nat)] ?h
     = Inr [\<lparr>alt = 0, addr = 0x08004000, data = [0x12]\<rparr>]" .
  from s a b c show ?thesis by (intro conjI)
qed

theorem touched_boundary_counterexample:
  "segments [(0, 0x12)] = [(0, 0 + 1)] \<and>
   \<not> touched (segments [(0, 0x12)]) 0 0 \<and>
   walk_sectors [(''@F/0/01*000 g'', 0::nat)] = Inr [(0, 0, 0)] \<and>
   load_sectors [(''@F/0/01*000 g'', 0::nat)] [(0, 0x12)] = Inr []"
proof -
  have a: "segments [(0, 0x12)] = [(0, 0 + 1)]" by code_simp
  have b: "\<not> touched (segments [(0, 0x12)]) 0 0" by code_simp
  have c: "walk_sectors [(''@F/0/01*000 g'', 0::nat)] = Inr [(0, 0, 0)]" by code_simp
  have d: "load_sectors [(''@F/0/01*000 g'', 0::nat)] [(0, 0x12)] = Inr []" by code_simp
  from a b c d show ?thesis by (intro conjI)
qed

subsection \<open>Claim C2: the payload of a planned sector\<close>

text \<open>
  C2, amended. Every sector the planner yields for a sector of positive size carries a
  payload whose length is the sector size, and each payload byte at an address that no
  segment of the hex file covers is \<open>0xFF\<close>, not zero. The claim as stated, for every
  planned sector, fails for a negative size, which the parser accepts and for which no
  payload length can agree.
\<close>
theorem planned_payload:
  assumes "walk_sectors alts = Inr w"
  shows "load_sectors alts h = Inr (map (planned h) (filter (is_touched h) w)) \<and>
     (\<forall>s \<in> set w. is_touched h s \<and> 0 < sector_size s \<longrightarrow>
        alt (planned h s) = fst s \<and> addr (planned h s) = sector_start s \<and>
        int (length (data (planned h s))) = sector_size s \<and>
        (\<forall>i < length (data (planned h s)).
           \<not> covered h (sector_start s + int i) \<longrightarrow>
             data (planned h s) ! i = 0xFF \<and> data (planned h s) ! i \<noteq> 0))"
proof -
  have 1: "load_sectors alts h = Inr (map (planned h) (filter (is_touched h) w))"
    unfolding load_sectors_walk assms by (simp add: plan_def)
  have 2: "alt (planned h s) = fst s \<and> addr (planned h s) = sector_start s \<and>
        int (length (data (planned h s))) = sector_size s \<and>
        (\<forall>i < length (data (planned h s)).
           \<not> covered h (sector_start s + int i) \<longrightarrow>
             data (planned h s) ! i = 0xFF \<and> data (planned h s) ! i \<noteq> 0)"
    if "0 < sector_size s" for s :: "'a \<times> int \<times> int"
  proof -
    obtain al a sz where s: "s = (al, a, sz)" by (cases s)
    have "data (planned h s) ! i = 0xFF \<and> data (planned h s) ! i \<noteq> 0"
      if "i < length (data (planned h s))" "\<not> covered h (sector_start s + int i)" for i
    proof -
      have "data (planned h s) ! i = read_byte h (a + int i)"
        using that(1) \<open>0 < sector_size s\<close> by (simp add: s planned_def nth_tobinarray)
      also have "\<dots> = 0xFF" using that(2) by (simp add: s read_byte_uncovered)
      finally show ?thesis by simp
    qed
    moreover have "int (length (data (planned h s))) = sector_size s"
      using \<open>0 < sector_size s\<close> by (simp add: s planned_def length_tobinarray)
    ultimately show ?thesis by (simp add: s planned_def)
  qed
  from 1 2 show ?thesis by blast
qed

theorem planned_payload_witness:
  "walk_sectors [(''@Flash/0x08004000/02*002 g'', 0::nat)] =
      Inr [(0, 0x08004000, 2), (0, 0x08004002, 2)] \<and>
   load_sectors [(''@Flash/0x08004000/02*002 g'', 0::nat)] [(0x08004000, 0x12)]
     = Inr [\<lparr>alt = 0, addr = 0x08004000, data = [0x12, 0xFF]\<rparr>] \<and>
   \<not> covered [(0x08004000, 0x12)] 0x08004001"
proof -
  let ?h = "[(0x08004000, 0x12)] :: hexfile"
  have w: "walk_sectors [(''@Flash/0x08004000/02*002 g'', 0::nat)] =
      Inr [(0, 0x08004000, 2), (0, 0x08004002, 2)]"
    by code_simp
  have "load_sectors [(''@Flash/0x08004000/02*002 g'', 0::nat)] ?h
      = Inr (map (planned ?h) (filter (is_touched ?h) [(0, 0x08004000, 2), (0, 0x08004002, 2)]))"
    by (rule planned_payload[OF w, THEN conjunct1])
  also have "map (planned ?h) (filter (is_touched ?h) [(0::nat, 0x08004000, 2), (0, 0x08004002, 2)])
      = [\<lparr>alt = 0, addr = 0x08004000, data = [0x12, 0xFF]\<rparr>]"
    by code_simp
  finally have c: "load_sectors [(''@Flash/0x08004000/02*002 g'', 0::nat)] ?h
     = Inr [\<lparr>alt = 0, addr = 0x08004000, data = [0x12, 0xFF]\<rparr>]" .
  have d: "\<not> covered ?h 0x08004001" by code_simp
  from w c d show ?thesis by (intro conjI)
qed

theorem payload_length_counterexample:
  "walk_sectors [(''@F/8/01*-4 g'', 0::nat)] = Inr [(0, 8, - 4)] \<and>
   segments [(7, 0x12), (8, 0x34)] = [(7, 9)] \<and>
   map_sum id (map (\<lambda>p. (addr p, int (length (data p)) = - 4)))
     (load_sectors [(''@F/8/01*-4 g'', 0::nat)] [(7, 0x12), (8, 0x34)]) = Inr [(8, False)]"
proof -
  have a: "walk_sectors [(''@F/8/01*-4 g'', 0::nat)] = Inr [(0, 8, - 4)]" by code_simp
  have b: "segments [(7, 0x12), (8, 0x34)] = [(7, 9)]" by code_simp
  have c: "map_sum id (map (\<lambda>p. (addr p, int (length (data p)) = - 4)))
     (load_sectors [(''@F/8/01*-4 g'', 0::nat)] [(7, 0x12), (8, 0x34)]) = Inr [(8, False)]"
    by code_simp
  from a b c show ?thesis by (intro conjI)
qed

subsection \<open>Claim C3: the first end-to-end scenario\<close>









subsection \<open>Splitting strings and parsing a sector specification\<close>

lemma str_split_not_Nil [simp]: "str_split c s \<noteq> []"
  by (induction s) (auto split: list.splits)

lemma str_split_no_sep: "c \<notin> set s \<Longrightarrow> str_split c s = [s]"
  by (induction s) auto

lemma str_split_append: "c \<notin> set r \<Longrightarrow> str_split c (r @ c # rest) = r # str_split c rest"
  by (induction r) (auto split: list.splits)

lemma str_split_ConsD:
  "str_split c s = w # ws \<Longrightarrow>
     c \<notin> set w \<and> (if ws = [] then s = w else \<exists>rest. s = w @ c # rest \<and> str_split c rest = ws)"
proof (induction s arbitrary: w ws)
  case Nil
  then show ?case by simp
next
  case (Cons x s)
  show ?case
  proof (cases "x = c")
    case True
    with Cons.prems show ?thesis by auto
  next
    case False
    obtain v vs where v: "str_split c s = v # vs"
      using str_split_not_Nil[of c s] by (cases "str_split c s") auto
    with False Cons.prems have w: "w = x # v" "ws = vs" by auto
    from Cons.IH[OF v] False show ?thesis
      by (auto simp: w split: if_splits)
  qed
qed

lemma str_split_singleton: "str_split c s = [w] \<longleftrightarrow> s = w \<and> c \<notin> set w"
  using str_split_ConsD[of c s w "[]"] str_split_no_sep[of c s] by auto

lemma str_split_two:
  "str_split c s = [r, z] \<longleftrightarrow> s = r @ c # z \<and> c \<notin> set r \<and> c \<notin> set z"
proof
  assume a: "str_split c s = [r, z]"
  from str_split_ConsD[OF a] obtain rest where
    "c \<notin> set r" "s = r @ c # rest" "str_split c rest = [z]" by auto
  then show "s = r @ c # z \<and> c \<notin> set r \<and> c \<notin> set z"
    by (simp add: str_split_singleton)
next
  assume "s = r @ c # z \<and> c \<notin> set r \<and> c \<notin> set z"
  then show "str_split c s = [r, z]"
    by (simp add: str_split_append str_split_no_sep)
qed

lemma length_str_split: "length (str_split c s) = Suc (count_list s c)"
proof (induction s)
  case Nil
  show ?case by simp
next
  case (Cons x s)
  obtain v vs where v: "str_split c s = v # vs"
    using str_split_not_Nil[of c s] by (cases "str_split c s") auto
  with Cons show ?case by auto
qed

lemma index_from_end_2: "index_from_end (b @ [u, m]) 2 = Some u"
  by (simp add: index_from_end_def nth_append)

lemma index_from_end_1: "index_from_end (b @ [u, m]) 1 = Some m"
  by (simp add: index_from_end_def nth_append)

lemma index_from_end_2_Some:
  "index_from_end s 2 = Some u \<Longrightarrow> \<exists>m. s = take (length s - 2) s @ [u, m]"
proof -
  assume a: "index_from_end s 2 = Some u"
  then have l: "2 \<le> length s" and u: "u = s ! (length s - 2)"
    by (auto simp: index_from_end_def split: if_splits)
  have "drop (length s - 2) s = [s ! (length s - 2), s ! (length s - 1)]"
    using l by (intro nth_equalityI) (auto simp: nth_Cons split: nat.splits)
  then have "s = take (length s - 2) s @ [u, s ! (length s - 1)]"
    using u append_take_drop_id[of "length s - 2" s] by simp
  then show ?thesis by blast
qed

text \<open>What the parser makes of a string of the form \<open>r*z\<close> followed by a unit and a mode.\<close>

lemma parse_sector_form:
  assumes "CHR ''*'' \<notin> set r" "CHR ''*'' \<notin> set z"
  shows "parse_sector (r @ CHR ''*'' # z @ [u, m]) =
     (case (py_int 10 r, py_int 10 z) of
        (Some rv, Some zv) \<Rightarrow>
          (case SIZE_MULTIPLIERS (upper u) of
             None \<Rightarrow> Inl KeyError
           | Some k \<Rightarrow> Inr (rv, zv * k, m))
      | _ \<Rightarrow> Inl ValueError)"
proof -
  let ?s = "r @ CHR ''*'' # z @ [u, m]"
  have t: "take (length ?s - 2) ?s = r @ CHR ''*'' # z" by simp
  have sp: "str_split (CHR ''*'') (r @ CHR ''*'' # z) = [r, z]"
    using assms by (simp add: str_split_two)
  have i2: "index_from_end ?s 2 = Some u"
    using index_from_end_2[of "r @ CHR ''*'' # z" u m] by simp
  have i1: "index_from_end ?s 1 = Some m"
    using index_from_end_1[of "r @ CHR ''*'' # z" u m] by simp
  show ?thesis
    unfolding parse_sector_def t sp i2 i1
    by (simp split: option.splits)
qed

lemma parse_sector_InrD:
  assumes "parse_sector s = Inr (rv, sz, m)"
  shows "\<exists>r z u zv k. s = r @ CHR ''*'' # z @ [u, m] \<and> CHR ''*'' \<notin> set r \<and> CHR ''*'' \<notin> set z \<and>
     py_int 10 r = Some rv \<and> py_int 10 z = Some zv \<and> SIZE_MULTIPLIERS (upper u) = Some k \<and>
     sz = zv * k"
proof -
  from assms obtain zv u k where
    mp: "map (py_int 10) (str_split (CHR ''*'') (take (length s - 2) s)) = [Some rv, Some zv]" and
    i2: "index_from_end s 2 = Some u" and
    k: "SIZE_MULTIPLIERS (upper u) = Some k" and
    i1: "index_from_end s 1 = Some m" and
    sz: "sz = zv * k"
    unfolding parse_sector_def
    by (auto split: list.splits option.splits)
  from mp obtain r z where
    rz: "str_split (CHR ''*'') (take (length s - 2) s) = [r, z]"
        "py_int 10 r = Some rv" "py_int 10 z = Some zv"
    by (auto simp: map_eq_Cons_conv)
  from rz(1) have t: "take (length s - 2) s = r @ CHR ''*'' # z"
      "CHR ''*'' \<notin> set r" "CHR ''*'' \<notin> set z"
    by (simp_all add: str_split_two)
  from index_from_end_2_Some[OF i2] obtain m' where s: "s = take (length s - 2) s @ [u, m']"
    by blast
  then have s': "s = (r @ CHR ''*'' # z) @ [u, m']" using t(1) by simp
  have "index_from_end s 1 = Some m'"
    by (subst s') (rule index_from_end_1)
  with i1 have "m' = m" by simp
  with s' t rz k sz show ?thesis by auto
qed

lemma parse_sector_error: "parse_sector s = Inl e \<Longrightarrow> e = ValueError \<or> e = KeyError"
proof -
  assume a: "parse_sector s = Inl e"
  show ?thesis
  proof (cases "length s < 2")
    case True
    then have t: "take (length s - 2) s = []" by simp
    have n: "py_int 10 [] = None" by code_simp
    have "parse_sector s = Inl ValueError"
      unfolding parse_sector_def t by (simp add: n)
    with a show ?thesis by simp
  next
    case False
    then have "index_from_end s 2 \<noteq> None" "index_from_end s 1 \<noteq> None"
      by (auto simp: index_from_end_def)
    with a show ?thesis
      unfolding parse_sector_def
      by (auto split: list.splits option.splits)
  qed
qed

lemma SIZE_MULTIPLIERS_Some:
  "SIZE_MULTIPLIERS c = Some k \<longleftrightarrow>
     c = CHR '' '' \<and> k = 1 \<or> c = CHR ''K'' \<and> k = 1024 \<or> c = CHR ''M'' \<and> k = 1024 * 1024"
  by (auto simp: SIZE_MULTIPLIERS_def)

lemma SIZE_MULTIPLIERS_None:
  "SIZE_MULTIPLIERS c = None \<longleftrightarrow> c \<notin> {CHR '' '', CHR ''K'', CHR ''M''}"
  by (auto simp: SIZE_MULTIPLIERS_def)

lemma upper_values:
  "upper (CHR ''k'') = CHR ''K''" "upper (CHR ''m'') = CHR ''M''"
  "upper (CHR ''K'') = CHR ''K''" "upper (CHR ''M'') = CHR ''M''"
  "upper (CHR '' '') = CHR '' ''"
  by code_simp+

lemma parse_sector_snoc2:
  "parse_sector (b @ [u, m]) =
     (case map (py_int 10) (str_split (CHR ''*'') b) of
        [Some rv, Some zv] \<Rightarrow>
          (case SIZE_MULTIPLIERS (upper u) of
             None \<Rightarrow> Inl KeyError
           | Some k \<Rightarrow> Inr (rv, zv * k, m))
      | _ \<Rightarrow> Inl ValueError)"
proof -
  have t: "take (length (b @ [u, m]) - 2) (b @ [u, m]) = b" by simp
  show ?thesis
    unfolding parse_sector_def t index_from_end_2 index_from_end_1
    by (simp split: list.splits option.splits)
qed

lemma wellformed_iff: "wellformed_sector s \<longleftrightarrow> \<not> isl (parse_sector s)"
proof
  assume "wellformed_sector s"
  then obtain r z u m where
    s: "s = r @ CHR ''*'' # z @ [u, m]" and
    n: "CHR ''*'' \<notin> set r" "CHR ''*'' \<notin> set z" and
    p: "py_int 10 r \<noteq> None" "py_int 10 z \<noteq> None" and
    u: "upper u \<in> {CHR '' '', CHR ''K'', CHR ''M''}"
    unfolding wellformed_sector_def by blast
  from u have "SIZE_MULTIPLIERS (upper u) \<noteq> None"
    by (simp add: SIZE_MULTIPLIERS_None)
  with p show "\<not> isl (parse_sector s)"
    unfolding s parse_sector_form[OF n] by auto
next
  assume "\<not> isl (parse_sector s)"
  then obtain rv sz m where "parse_sector s = Inr (rv, sz, m)"
    by (cases "parse_sector s") auto
  from parse_sector_InrD[OF this] obtain r z u zv k where
    "s = r @ CHR ''*'' # z @ [u, m]" "CHR ''*'' \<notin> set r" "CHR ''*'' \<notin> set z"
    "py_int 10 r = Some rv" "py_int 10 z = Some zv" "SIZE_MULTIPLIERS (upper u) = Some k"
    by blast
  moreover from this have "upper u \<in> {CHR '' '', CHR ''K'', CHR ''M''}"
    using SIZE_MULTIPLIERS_None[of "upper u"] by auto
  ultimately show "wellformed_sector s"
    unfolding wellformed_sector_def by blast
qed

lemma isl_case_sum: "isl (case x of Inl e \<Rightarrow> Inl e | Inr zs \<Rightarrow> Inr (f zs)) = isl x"
  by (cases x) simp_all

lemma walk_layout_isl:
  "isl (walk_layout al a ss) \<longleftrightarrow> (\<exists>s \<in> set ss. isl (parse_sector s))"
proof (induction ss arbitrary: a)
  case Nil
  show ?case by simp
next
  case (Cons s ss)
  show ?case
  proof (cases "parse_sector s")
    case (Inl e)
    then show ?thesis by simp
  next
    case (Inr g)
    then show ?thesis
      by (simp add: case_prod_beta isl_case_sum Cons.IH)
  qed
qed

lemma walk_layout_error:
  "walk_layout al a ss = Inl e \<Longrightarrow> e = ValueError \<or> e = KeyError"
proof (induction ss arbitrary: a)
  case Nil
  then show ?case by simp
next
  case (Cons s ss)
  show ?case
  proof (cases "parse_sector s")
    case (Inl e')
    with Cons.prems parse_sector_error[of s e'] show ?thesis by simp
  next
    case (Inr g)
    with Cons.prems Cons.IH show ?thesis
      by (auto simp: case_prod_beta split: sum.splits)
  qed
qed

lemma walk_sectors_isl_single:
  "isl (walk_sectors [(name, al)]) \<longleftrightarrow>
     length (str_split (CHR ''/'') name) \<noteq> 3 \<or>
     (\<exists>label addr_s layout. str_split (CHR ''/'') name = [label, addr_s, layout] \<and>
        (py_int 0 addr_s = None \<or>
         (\<exists>s \<in> set (str_split (CHR '','') layout). \<not> wellformed_sector s)))"
proof (cases "str_split (CHR ''/'') name")
  case Nil
  then show ?thesis by simp
next
  case (Cons f1 r1)
  show ?thesis
  proof (cases r1)
    case Nil
    with Cons show ?thesis by simp
  next
    case (Cons f2 r2)
    note c2 = this
    show ?thesis
    proof (cases r2)
      case Nil
      with c2 \<open>str_split (CHR ''/'') name = f1 # r1\<close> show ?thesis by simp
    next
      case (Cons f3 r3)
      show ?thesis
      proof (cases r3)
        case Nil
        with Cons c2 \<open>str_split (CHR ''/'') name = f1 # r1\<close>
        have sp: "str_split (CHR ''/'') name = [f1, f2, f3]" by simp
        show ?thesis
        proof (cases "py_int 0 f2")
          case None
          then show ?thesis by (simp add: sp)
        next
          case (Some a)
          have "isl (walk_sectors [(name, al)]) =
              isl (walk_layout al a (str_split (CHR '','') f3))"
            by (cases "walk_layout al a (str_split (CHR '','') f3)") (simp_all add: sp Some)
          then show ?thesis
            by (simp add: sp Some walk_layout_isl wellformed_iff)
        qed
      next
        case (Cons f4 r4)
        with \<open>r2 = f3 # r3\<close> c2 \<open>str_split (CHR ''/'') name = f1 # r1\<close>
        show ?thesis by simp
      qed
    qed
  qed
qed

lemma walk_sectors_error:
  "walk_sectors alts = Inl e \<Longrightarrow> e = ValueError \<or> e = KeyError"
proof (induction alts)
  case Nil
  then show ?case by simp
next
  case (Cons p alts)
  obtain name al where p: "p = (name, al)" by (cases p)
  from Cons.prems Cons.IH show ?case
    unfolding p
    by (auto split: list.splits option.splits sum.splits dest: walk_layout_error)
qed

lemma walk_sectors_isl_mem:
  "(name, al) \<in> set alts \<Longrightarrow> isl (walk_sectors [(name, al)]) \<Longrightarrow> isl (walk_sectors alts)"
proof (induction alts)
  case Nil
  then show ?case by simp
next
  case (Cons p alts)
  obtain n' al' where p: "p = (n', al')" by (cases p)
  show ?case
  proof (cases "p = (name, al)")
    case True
    with Cons.prems(2) show ?thesis
      by (auto split: list.splits option.splits sum.splits)
  next
    case False
    with Cons have "isl (walk_sectors alts)" by simp
    then show ?thesis
      unfolding p by (auto split: list.splits option.splits sum.splits)
  qed
qed

lemma load_sectors_isl: "isl (load_sectors alts h) \<longleftrightarrow> isl (walk_sectors alts)"
  by (cases "walk_sectors alts") (simp_all add: load_sectors_walk)

lemma load_sectors_Inl: "load_sectors alts h = Inl e \<longleftrightarrow> walk_sectors alts = Inl e"
  by (cases "walk_sectors alts") (simp_all add: load_sectors_walk)

subsection \<open>Claim C8: parse errors and size multipliers\<close>

text \<open>
  C8, amended. Loading a descriptor fails, with \<^verbatim>\<open>ValueError\<close> or \<^verbatim>\<open>KeyError\<close> (the format
  errors of the specification), exactly when the string does not have three fields
  between slashes (two slashes), or the address field is not an integer literal that
  \<^verbatim>\<open>int(addr, 0)\<close> accepts, or some sector specification between the commas is not of the
  form \<^verbatim>\<open>repeat*size\<close>, unit, mode. For a well-formed sector specification the size is
  multiplied by 1024 for the unit \<^verbatim>\<open>K\<close>, by 1024 * 1024 for \<^verbatim>\<open>M\<close> and by 1 for a blank.
  The claim as stated, that an address which is not an unsigned integer fails, does not
  hold: \<^verbatim>\<open>int\<close> accepts a sign.
\<close>
theorem layout_parse_errors:
  "(isl (load_sectors [(name, al)] h) \<longleftrightarrow>
      length (str_split (CHR ''/'') name) \<noteq> 3 \<or>
      (\<exists>label addr_s layout. str_split (CHR ''/'') name = [label, addr_s, layout] \<and>
         (py_int 0 addr_s = None \<or>
          (\<exists>s \<in> set (str_split (CHR '','') layout). \<not> wellformed_sector s)))) \<and>
   length (str_split (CHR ''/'') name) = Suc (count_list name (CHR ''/'')) \<and>
   (load_sectors [(name, al)] h = Inl e \<longrightarrow> e = ValueError \<or> e = KeyError) \<and>
   (CHR ''*'' \<notin> set r \<and> CHR ''*'' \<notin> set z \<and> py_int 10 r = Some rv \<and> py_int 10 z = Some zv \<longrightarrow>
      parse_sector (r @ CHR ''*'' # z @ [CHR ''K'', m]) = Inr (rv, zv * 1024, m) \<and>
      parse_sector (r @ CHR ''*'' # z @ [CHR ''M'', m]) = Inr (rv, zv * (1024 * 1024), m) \<and>
      parse_sector (r @ CHR ''*'' # z @ [CHR '' '', m]) = Inr (rv, zv * 1, m))"
proof -
  have 1: "isl (load_sectors [(name, al)] h) \<longleftrightarrow>
      length (str_split (CHR ''/'') name) \<noteq> 3 \<or>
      (\<exists>label addr_s layout. str_split (CHR ''/'') name = [label, addr_s, layout] \<and>
         (py_int 0 addr_s = None \<or>
          (\<exists>s \<in> set (str_split (CHR '','') layout). \<not> wellformed_sector s)))"
    unfolding load_sectors_isl by (rule walk_sectors_isl_single)
  have 2: "length (str_split (CHR ''/'') name) = Suc (count_list name (CHR ''/''))"
    by (rule length_str_split)
  have 3: "load_sectors [(name, al)] h = Inl e \<longrightarrow> e = ValueError \<or> e = KeyError"
    unfolding load_sectors_Inl using walk_sectors_error by blast
  have 4: "CHR ''*'' \<notin> set r \<and> CHR ''*'' \<notin> set z \<and> py_int 10 r = Some rv \<and> py_int 10 z = Some zv \<longrightarrow>
      parse_sector (r @ CHR ''*'' # z @ [CHR ''K'', m]) = Inr (rv, zv * 1024, m) \<and>
      parse_sector (r @ CHR ''*'' # z @ [CHR ''M'', m]) = Inr (rv, zv * (1024 * 1024), m) \<and>
      parse_sector (r @ CHR ''*'' # z @ [CHR '' '', m]) = Inr (rv, zv * 1, m)"
    by (simp add: parse_sector_form upper_values SIZE_MULTIPLIERS_def)
  from 1 2 3 4 show ?thesis by (intro conjI)
qed

theorem layout_parse_errors_witness:
  "isl (load_sectors [(''@Flash/zz/04*016Kg'', 0::nat)] []) \<and>
   isl (load_sectors [(''@Flash/0x08000000/04+016Kg'', 0::nat)] []) \<and>
   isl (load_sectors [(''@Flash/0x08000000'', 0::nat)] []) \<and>
   parse_sector ''04*016Kg'' = Inr (4, 16 * 1024, CHR ''g'')"
proof -
  note T = layout_parse_errors[where h = "[]" and al = "0::nat"]
  have a: "str_split (CHR ''/'') ''@Flash/zz/04*016Kg'' = [''@Flash'', ''zz'', ''04*016Kg'']"
    by code_simp
  have b: "py_int 0 ''zz'' = None" by code_simp
  have 1: "isl (load_sectors [(''@Flash/zz/04*016Kg'', 0::nat)] [])"
    using T[where name = "''@Flash/zz/04*016Kg''", THEN conjunct1] a b by blast
  have c: "str_split (CHR ''/'') ''@Flash/0x08000000/04+016Kg''
      = [''@Flash'', ''0x08000000'', ''04+016Kg'']"
    by code_simp
  have d: "str_split (CHR '','') ''04+016Kg'' = [''04+016Kg'']" by code_simp
  have "isl (parse_sector ''04+016Kg'')" by code_simp
  then have e: "\<not> wellformed_sector ''04+016Kg''" by (simp add: wellformed_iff)
  have 2: "isl (load_sectors [(''@Flash/0x08000000/04+016Kg'', 0::nat)] [])"
    using T[where name = "''@Flash/0x08000000/04+016Kg''", THEN conjunct1] c d e by simp
  have f: "length (str_split (CHR ''/'') ''@Flash/0x08000000'') \<noteq> 3" by code_simp
  have 3: "isl (load_sectors [(''@Flash/0x08000000'', 0::nat)] [])"
    using T[where name = "''@Flash/0x08000000''", THEN conjunct1] f by blast
  have g: "CHR ''*'' \<notin> set ''04'' \<and> CHR ''*'' \<notin> set ''016'' \<and>
      py_int 10 ''04'' = Some 4 \<and> py_int 10 ''016'' = Some 16"
    by code_simp
  have 4: "parse_sector ''04*016Kg'' = Inr (4, 16 * 1024, CHR ''g'')"
    using T[where r = "''04''" and z = "''016''" and rv = 4 and zv = 16 and m = "CHR ''g''",
        THEN conjunct2, THEN conjunct2, THEN conjunct2, THEN mp, OF g, THEN conjunct1]
    by simp
  from 1 2 3 4 show ?thesis by (intro conjI)
qed

theorem signed_address_counterexample:
  "str_split (CHR ''/'') ''@F/-1/01*002 g'' = [''@F'', ''-1'', ''01*002 g''] \<and>
   py_int 0 ''-1'' = Some (- 1) \<and>
   load_sectors [(''@F/-1/01*002 g'', 0::nat)] [(0, 0x12)]
     = Inr [\<lparr>alt = 0, addr = - 1, data = [0xFF, 0x12]\<rparr>]"
proof -
  have a: "str_split (CHR ''/'') ''@F/-1/01*002 g'' = [''@F'', ''-1'', ''01*002 g'']"
    by code_simp
  have b: "py_int 0 ''-1'' = Some (- 1)" by code_simp
  have c: "load_sectors [(''@F/-1/01*002 g'', 0::nat)] [(0, 0x12)]
     = Inr [\<lparr>alt = 0, addr = - 1, data = [0xFF, 0x12]\<rparr>]"
    by code_simp
  from a b c show ?thesis by (intro conjI)
qed

subsection \<open>Claim C10: the unit is read in either case\<close>

text \<open>
  C10. The unit character is put in upper case before the lookup in
  \<^verbatim>\<open>SIZE_MULTIPLIERS\<close>: \<^verbatim>\<open>k\<close> gives 1024 as \<^verbatim>\<open>K\<close> does and \<^verbatim>\<open>m\<close> gives 1024 * 1024 as \<^verbatim>\<open>M\<close>
  does, so a sector specification parses to the same result with either. A
  specification \<open>r*z\<close> with the integers \<open>rv\<close> and \<open>zv\<close>, followed by the unit and a mode,
  parses to the repeat count \<open>rv\<close>, the mode, and the size \<open>zv * 1024\<close> for \<^verbatim>\<open>k\<close> and \<^verbatim>\<open>K\<close>,
  \<open>zv * 1024 * 1024\<close> for \<^verbatim>\<open>m\<close> and \<^verbatim>\<open>M\<close>. A unit character whose upper case is not blank,
  \<^verbatim>\<open>K\<close> or \<^verbatim>\<open>M\<close> makes the sector specification fail, with \<^verbatim>\<open>KeyError\<close> when the two
  integers parse, and with it the loading of every list of alternates that holds a
  descriptor with this sector specification.
\<close>
theorem unit_case_insensitive:
  "SIZE_MULTIPLIERS (upper (CHR ''k'')) = Some 1024 \<and>
   SIZE_MULTIPLIERS (upper (CHR ''K'')) = Some 1024 \<and>
   SIZE_MULTIPLIERS (upper (CHR ''m'')) = Some (1024 * 1024) \<and>
   SIZE_MULTIPLIERS (upper (CHR ''M'')) = Some (1024 * 1024) \<and>
   parse_sector (b @ [CHR ''k'', m]) = parse_sector (b @ [CHR ''K'', m]) \<and>
   parse_sector (b @ [CHR ''m'', m]) = parse_sector (b @ [CHR ''M'', m]) \<and>
   (upper u \<notin> {CHR '' '', CHR ''K'', CHR ''M''} \<longrightarrow>
      isl (parse_sector (b @ [u, m])) \<and>
      (str_split (CHR ''/'') name = [label, addr_s, layout] \<and>
       b @ [u, m] \<in> set (str_split (CHR '','') layout) \<and> (name, al) \<in> set alts \<longrightarrow>
         isl (load_sectors alts h))) \<and>
   (CHR ''*'' \<notin> set r \<and> CHR ''*'' \<notin> set z \<and>
    py_int 10 r = Some rv \<and> py_int 10 z = Some zv \<longrightarrow>
      parse_sector (r @ CHR ''*'' # z @ [CHR ''k'', m]) = Inr (rv, zv * 1024, m) \<and>
      parse_sector (r @ CHR ''*'' # z @ [CHR ''K'', m]) = Inr (rv, zv * 1024, m) \<and>
      parse_sector (r @ CHR ''*'' # z @ [CHR ''m'', m]) = Inr (rv, zv * (1024 * 1024), m) \<and>
      parse_sector (r @ CHR ''*'' # z @ [CHR ''M'', m]) = Inr (rv, zv * (1024 * 1024), m) \<and>
      parse_sector (r @ CHR ''*'' # z @ [CHR '' '', m]) = Inr (rv, zv * 1, m) \<and>
      (upper u \<notin> {CHR '' '', CHR ''K'', CHR ''M''} \<longrightarrow>
         parse_sector (r @ CHR ''*'' # z @ [u, m]) = Inl KeyError))"
proof -
  have 1: "SIZE_MULTIPLIERS (upper (CHR ''k'')) = Some 1024"
    "SIZE_MULTIPLIERS (upper (CHR ''K'')) = Some 1024"
    "SIZE_MULTIPLIERS (upper (CHR ''m'')) = Some (1024 * 1024)"
    "SIZE_MULTIPLIERS (upper (CHR ''M'')) = Some (1024 * 1024)"
    by (simp_all add: upper_values SIZE_MULTIPLIERS_def)
  have 2: "parse_sector (b @ [CHR ''k'', m]) = parse_sector (b @ [CHR ''K'', m])"
    "parse_sector (b @ [CHR ''m'', m]) = parse_sector (b @ [CHR ''M'', m])"
    unfolding parse_sector_snoc2 upper_values by (rule refl)+
  have 3: "isl (parse_sector (b @ [u, m])) \<and>
      (str_split (CHR ''/'') name = [label, addr_s, layout] \<and>
       b @ [u, m] \<in> set (str_split (CHR '','') layout) \<and> (name, al) \<in> set alts \<longrightarrow>
         isl (load_sectors alts h))"
    if u: "upper u \<notin> {CHR '' '', CHR ''K'', CHR ''M''}"
  proof -
    from u have "SIZE_MULTIPLIERS (upper u) = None" by (simp add: SIZE_MULTIPLIERS_None)
    then have p: "isl (parse_sector (b @ [u, m]))"
      by (simp add: parse_sector_snoc2 split: list.splits option.splits)
    have "isl (load_sectors alts h)"
      if sp: "str_split (CHR ''/'') name = [label, addr_s, layout]"
        and mem: "b @ [u, m] \<in> set (str_split (CHR '','') layout)"
        and al: "(name, al) \<in> set alts"
    proof -
      from p have "\<not> wellformed_sector (b @ [u, m])" by (simp add: wellformed_iff)
      with sp mem have "isl (walk_sectors [(name, al)])"
        unfolding walk_sectors_isl_single by blast
      from walk_sectors_isl_mem[OF al this] show ?thesis by (simp add: load_sectors_isl)
    qed
    with p show ?thesis by blast
  qed
  have 4: "parse_sector (r @ CHR ''*'' # z @ [CHR ''k'', m]) = Inr (rv, zv * 1024, m) \<and>
      parse_sector (r @ CHR ''*'' # z @ [CHR ''K'', m]) = Inr (rv, zv * 1024, m) \<and>
      parse_sector (r @ CHR ''*'' # z @ [CHR ''m'', m]) = Inr (rv, zv * (1024 * 1024), m) \<and>
      parse_sector (r @ CHR ''*'' # z @ [CHR ''M'', m]) = Inr (rv, zv * (1024 * 1024), m) \<and>
      parse_sector (r @ CHR ''*'' # z @ [CHR '' '', m]) = Inr (rv, zv * 1, m) \<and>
      (upper u \<notin> {CHR '' '', CHR ''K'', CHR ''M''} \<longrightarrow>
         parse_sector (r @ CHR ''*'' # z @ [u, m]) = Inl KeyError)"
    if n: "CHR ''*'' \<notin> set r" "CHR ''*'' \<notin> set z"
      and p: "py_int 10 r = Some rv" "py_int 10 z = Some zv"
  proof -
    have f: "parse_sector (r @ CHR ''*'' # z @ [c, m]) =
        (case SIZE_MULTIPLIERS (upper c) of
           None \<Rightarrow> Inl KeyError
         | Some k \<Rightarrow> Inr (rv, zv * k, m))" for c
      unfolding parse_sector_form[OF n] p by simp
    have b: "SIZE_MULTIPLIERS (upper (CHR '' '')) = Some 1"
      by (simp add: upper_values SIZE_MULTIPLIERS_def)
    have e: "parse_sector (r @ CHR ''*'' # z @ [u, m]) = Inl KeyError"
      if "upper u \<notin> {CHR '' '', CHR ''K'', CHR ''M''}"
    proof -
      from that have "SIZE_MULTIPLIERS (upper u) = None" by (simp add: SIZE_MULTIPLIERS_None)
      then show ?thesis by (simp add: f)
    qed
    have "parse_sector (r @ CHR ''*'' # z @ [CHR ''k'', m]) = Inr (rv, zv * 1024, m)"
      "parse_sector (r @ CHR ''*'' # z @ [CHR ''K'', m]) = Inr (rv, zv * 1024, m)"
      "parse_sector (r @ CHR ''*'' # z @ [CHR ''m'', m]) = Inr (rv, zv * (1024 * 1024), m)"
      "parse_sector (r @ CHR ''*'' # z @ [CHR ''M'', m]) = Inr (rv, zv * (1024 * 1024), m)"
      "parse_sector (r @ CHR ''*'' # z @ [CHR '' '', m]) = Inr (rv, zv * 1, m)"
      unfolding f 1 b by simp_all
    with e show ?thesis by blast
  qed
  from 1 2 3 4 show ?thesis by (intro conjI impI) blast+
qed

theorem unit_case_insensitive_witness:
  "parse_sector ''04*016kg'' = Inr (4, 16384, CHR ''g'') \<and>
   parse_sector ''04*016Kg'' = Inr (4, 16384, CHR ''g'') \<and>
   parse_sector ''04*016mg'' = Inr (4, 16777216, CHR ''g'') \<and>
   parse_sector ''04*016Mg'' = Inr (4, 16777216, CHR ''g'') \<and>
   parse_sector ''04*016 g'' = Inr (4, 16, CHR ''g'') \<and>
   parse_sector ''04*016Gg'' = Inl KeyError \<and>
   isl (load_sectors [(''@Flash/0x08000000/04*016Kg,01*064Gg'', 0::nat)] [])"
proof -
  have u: "upper (CHR ''G'') \<notin> {CHR '' '', CHR ''K'', CHR ''M''}" by code_simp
  have n: "CHR ''*'' \<notin> set ''04''" "CHR ''*'' \<notin> set ''016''" by simp_all
  have p: "py_int 10 ''04'' = Some 4" "py_int 10 ''016'' = Some 16" by code_simp+
  note P = unit_case_insensitive[where r = "''04''" and z = "''016''" and rv = 4 and zv = 16
      and m = "CHR ''g''" and u = "CHR ''G''",
      THEN conjunct2, THEN conjunct2, THEN conjunct2, THEN conjunct2, THEN conjunct2,
      THEN conjunct2, THEN conjunct2, THEN mp, OF conjI[OF n(1) conjI[OF n(2) conjI[OF p]]]]
  from P have a: "parse_sector ''04*016kg'' = Inr (4, 16384, CHR ''g'')" by simp
  from P have b: "parse_sector ''04*016Kg'' = Inr (4, 16384, CHR ''g'')" by simp
  from P have c: "parse_sector ''04*016mg'' = Inr (4, 16777216, CHR ''g'')" by simp
  from P have d: "parse_sector ''04*016Mg'' = Inr (4, 16777216, CHR ''g'')" by simp
  from P have e: "parse_sector ''04*016 g'' = Inr (4, 16, CHR ''g'')" by simp
  from P u have f: "parse_sector ''04*016Gg'' = Inl KeyError" by simp
  have sp: "str_split (CHR ''/'') ''@Flash/0x08000000/04*016Kg,01*064Gg''
      = [''@Flash'', ''0x08000000'', ''04*016Kg,01*064Gg'']"
    by code_simp
  have mem: "''01*064'' @ [CHR ''G'', CHR ''g''] \<in> set (str_split (CHR '','') ''04*016Kg,01*064Gg'')"
    by code_simp
  have al: "(''@Flash/0x08000000/04*016Kg,01*064Gg'', 0::nat)
      \<in> set [(''@Flash/0x08000000/04*016Kg,01*064Gg'', 0::nat)]"
    by simp
  have g: "isl (load_sectors [(''@Flash/0x08000000/04*016Kg,01*064Gg'', 0::nat)] [])"
    using unit_case_insensitive[where u = "CHR ''G''" and b = "''01*064''" and m = "CHR ''g''"
        and name = "''@Flash/0x08000000/04*016Kg,01*064Gg''" and al = "0::nat"
        and alts = "[(''@Flash/0x08000000/04*016Kg,01*064Gg'', 0::nat)]" and h = "[]",
        THEN conjunct2, THEN conjunct2, THEN conjunct2, THEN conjunct2, THEN conjunct2,
        THEN conjunct2, THEN conjunct1, THEN mp, OF u, THEN conjunct2, THEN mp] sp mem al
    by blast
  from a b c d e f g show ?thesis by (intro conjI)
qed

subsection \<open>Claim C9: the access mode is not used\<close>

lemma parse_sector_short: "length s < 2 \<Longrightarrow> parse_sector s = Inl ValueError"
proof -
  assume "length s < 2"
  then have t: "take (length s - 2) s = []" by simp
  have n: "py_int 10 [] = None" by code_simp
  show ?thesis unfolding parse_sector_def t by (simp add: n)
qed

lemma two_last: "2 \<le> length s \<Longrightarrow> \<exists>b u m. s = b @ [u, m]"
proof -
  assume l: "2 \<le> length s"
  then have "s \<noteq> []" by auto
  then have s: "s = butlast s @ [last s]" by simp
  from l have "butlast s \<noteq> []" by (cases s rule: rev_cases) auto
  then have "butlast s = butlast (butlast s) @ [last (butlast s)]" by simp
  with s have "s = butlast (butlast s) @ [last (butlast s), last s]"
    by (metis append_Cons append_Nil append_assoc)
  then show ?thesis by blast
qed

lemma same_but_mode_parse:
  assumes "same_but_mode s t"
  shows "(\<forall>e. parse_sector s = Inl e \<longleftrightarrow> parse_sector t = Inl e) \<and>
     (\<forall>rv sz m. parse_sector s = Inr (rv, sz, m) \<longrightarrow> (\<exists>m'. parse_sector t = Inr (rv, sz, m')))"
proof (cases "length s < 2")
  case True
  with assms have "length t < 2" by (simp add: same_but_mode_def)
  with True show ?thesis by (simp add: parse_sector_short)
next
  case False
  then obtain b u m where s: "s = b @ [u, m]" using two_last[of s] by auto
  from assms have l: "length t = length s" and bl: "butlast t = b @ [u]"
    by (simp_all add: same_but_mode_def s butlast_append)
  from l s have "t \<noteq> []" by auto
  then have "t = butlast t @ [last t]" by simp
  with bl have t: "t = b @ [u, last t]" by simp
  show ?thesis
    by (subst (1 2) t, unfold s parse_sector_snoc2)
       (auto split: list.splits option.splits)
qed

lemma walk_layout_same:
  "list_all2 same_but_mode ss ts \<Longrightarrow> walk_layout al a ss = walk_layout al a ts"
proof (induction ss ts arbitrary: a rule: list_all2_induct)
  case Nil
  show ?case by simp
next
  case (Cons s ss t ts)
  note P = same_but_mode_parse[OF Cons.hyps(1)]
  show ?case
  proof (cases "parse_sector s")
    case (Inl e)
    with P have "parse_sector t = Inl e" by blast
    with Inl show ?thesis by simp
  next
    case (Inr g)
    obtain rv sz m where g: "g = (rv, sz, m)" by (cases g)
    with Inr P obtain m' where "parse_sector t = Inr (rv, sz, m')" by blast
    with Inr g Cons.IH show ?thesis by (simp add: case_prod_beta split: sum.splits)
  qed
qed

lemma walk_sectors_same:
  "list_all2 (\<lambda>p q. snd p = snd q \<and> differ_only_in_mode (fst p) (fst q)) alts1 alts2 \<Longrightarrow>
     walk_sectors alts1 = walk_sectors alts2"
proof (induction alts1 alts2 rule: list_all2_induct)
  case Nil
  show ?case by simp
next
  case (Cons p alts1 q alts2)
  obtain n1 al where p: "p = (n1, al)" by (cases p)
  with Cons.hyps(1) obtain n2 where q: "q = (n2, al)" by (cases q) auto
  from Cons.hyps(1) have d: "differ_only_in_mode n1 n2" by (simp add: p q)
  then obtain l ad y1 y2 where
    s1: "str_split (CHR ''/'') n1 = [l, ad, y1]" and
    s2: "str_split (CHR ''/'') n2 = [l, ad, y2]" and
    la: "list_all2 same_but_mode (str_split (CHR '','') y1) (str_split (CHR '','') y2)"
    unfolding differ_only_in_mode_def
    by (auto split: list.splits)
  show ?case
    unfolding p q walk_sectors.simps s1 s2 list.case walk_layout_same[OF la] Cons.IH
    by (rule refl)
qed

text \<open>
  C9. When the descriptors of two lists of alternates agree pairwise but for the access
  mode characters of their sector specifications, the planner gives the same result for
  both: the same error, or the same list of planned sectors. The descriptors are
  compared field by field and sector specification by sector specification, so a
  separator is never taken for an access mode.
\<close>
theorem mode_not_used:
  assumes "list_all2 (\<lambda>p q. snd p = snd q \<and> differ_only_in_mode (fst p) (fst q)) alts1 alts2"
  shows "load_sectors alts1 h = load_sectors alts2 h"
  unfolding load_sectors_walk walk_sectors_same[OF assms] by (rule refl)

theorem mode_not_used_witness:
  "differ_only_in_mode ''@Flash/0x08000000/02*002 g,01*004 a'' ''@Flash/0x08000000/02*002 a,01*004 e'' \<and>
   load_sectors [(''@Flash/0x08000000/02*002 g,01*004 a'', 0::nat)] [(0x08000002, 0x12)] =
     Inr [\<lparr>alt = 0, addr = 0x08000002, data = [0x12, 0xFF]\<rparr>] \<and>
   load_sectors [(''@Flash/0x08000000/02*002 a,01*004 e'', 0::nat)] [(0x08000002, 0x12)] =
     Inr [\<lparr>alt = 0, addr = 0x08000002, data = [0x12, 0xFF]\<rparr>]"
proof -
  have d: "differ_only_in_mode ''@Flash/0x08000000/02*002 g,01*004 a''
      ''@Flash/0x08000000/02*002 a,01*004 e''"
    by code_simp
  then have l: "list_all2 (\<lambda>p q. snd p = snd q \<and> differ_only_in_mode (fst p) (fst q))
      [(''@Flash/0x08000000/02*002 g,01*004 a'', 0::nat)]
      [(''@Flash/0x08000000/02*002 a,01*004 e'', 0::nat)]"
    by simp
  have a: "load_sectors [(''@Flash/0x08000000/02*002 g,01*004 a'', 0::nat)] [(0x08000002, 0x12)] =
     Inr [\<lparr>alt = 0, addr = 0x08000002, data = [0x12, 0xFF]\<rparr>]"
    by code_simp
  have b: "load_sectors [(''@Flash/0x08000000/02*002 a,01*004 e'', 0::nat)] [(0x08000002, 0x12)] =
     Inr [\<lparr>alt = 0, addr = 0x08000002, data = [0x12, 0xFF]\<rparr>]"
    using mode_not_used[OF l, of "[(0x08000002, 0x12)]"] a by simp
  from d a b show ?thesis by (intro conjI)
qed

subsection \<open>Runs of the device calls follow their scripts\<close>

lemma call_failure_not_Returns: "call_failure dev tr c \<noteq> Some (Returns x)"
  by (cases c) (auto simp: of_reply_def split: sum.splits option.splits)

lemma follows_append:
  "follows dev tr n1 (Returns ()) \<Longrightarrow>
     follows dev tr (n1 @ n2) out = follows dev (tr @ n1) n2 out"
  by (induction n1 arbitrary: tr) (auto simp: call_failure_not_Returns split: option.splits)

lemma runs_scriptI:
  assumes "m tr = (out, tr @ new)" "prefix new script" "follows dev tr new (void out)"
    and "void out = Returns () \<Longrightarrow> new = script"
  shows "runs_script dev m tr script"
  using assms by (simp add: runs_script_def new_calls_def)

lemma runs_scriptE:
  assumes "runs_script dev m tr script"
  obtains out new where "m tr = (out, tr @ new)" "prefix new script"
    "follows dev tr new (void out)" "void out = Returns () \<longrightarrow> new = script"
proof -
  obtain out tr' where mt: "m tr = (out, tr')" by (cases "m tr")
  from assms have "tr' = tr @ new_calls m tr"
    by (simp add: runs_script_def mt)
  with assms mt that[of out "new_calls m tr"] show ?thesis
    by (simp add: runs_script_def)
qed

lemma void_Returns [simp]: "void out = Returns () \<longleftrightarrow> (\<exists>x. out = Returns x)"
  by (cases out) (simp_all add: void_def)

lemma void_simps [simp]:
  "void (Returns x) = Returns ()" "void (Raises e) = Raises e" "void Hangs = Hangs"
  by (simp_all add: void_def)

lemma runs_then_do:
  assumes 1: "runs_script dev m tr s1"
    and 2: "\<And>x. fst (m tr) = Returns x \<Longrightarrow> runs_script dev (f x) (tr @ s1) s2"
  shows "runs_script dev (then_do m f) tr (s1 @ s2)"
proof -
  from 1 obtain out n1 where
    m: "m tr = (out, tr @ n1)" and p1: "prefix n1 s1" and
    f1: "follows dev tr n1 (void out)" and e1: "void out = Returns () \<longrightarrow> n1 = s1"
    by (rule runs_scriptE)
  show ?thesis
  proof (cases out)
    case (Returns x)
    with e1 have n1: "n1 = s1" by simp
    from 2[of x] m Returns obtain out2 n2 where
      fx: "f x (tr @ s1) = (out2, (tr @ s1) @ n2)" and p2: "prefix n2 s2" and
      f2: "follows dev (tr @ s1) n2 (void out2)" and e2: "void out2 = Returns () \<longrightarrow> n2 = s2"
      by (auto elim: runs_scriptE)
    have "then_do m f tr = (out2, tr @ (s1 @ n2))"
      using m Returns n1 fx by (simp add: then_do_def)
    moreover have "follows dev tr (s1 @ n2) (void out2)"
      using f1 Returns n1 f2 by (simp add: follows_append)
    ultimately show ?thesis
      using p2 e2 by (intro runs_scriptI[where new = "s1 @ n2" and out = out2]) auto
  next
    case (Raises e)
    have "then_do m f tr = (Raises e, tr @ n1)"
      using m Raises by (simp add: then_do_def)
    then show ?thesis
      using p1 f1 Raises
      by (intro runs_scriptI[where new = n1 and out = "Raises e"]) (auto simp: prefix_def)
  next
    case Hangs
    have "then_do m f tr = (Hangs, tr @ n1)"
      using m Hangs by (simp add: then_do_def)
    then show ?thesis
      using p1 f1 Hangs
      by (intro runs_scriptI[where new = n1 and out = "Hangs"]) (auto simp: prefix_def)
  qed
qed

lemma runs_return: "runs_script dev (return x) tr []"
  by (rule runs_scriptI[where new = "[]" and out = "Returns x"]) (simp_all add: return_def)

lemma runs_invoke:
  assumes "m tr = invoke c r tr" "call_failure dev tr c = of_reply r"
  shows "runs_script dev m tr [c]"
proof (cases r)
  case (Inl e)
  with assms show ?thesis
    by (intro runs_scriptI[where new = "[c]" and out = "Raises e"])
       (simp_all add: invoke_def of_reply_def)
next
  case (Inr x)
  with assms show ?thesis
    by (intro runs_scriptI[where new = "[c]" and out = "Returns x"])
       (simp_all add: invoke_def of_reply_def)
qed

lemma runs_set_alternate:
  "runs_script dev (dfudev_set_alternate dev al) tr [Set_alternate al]"
  by (rule runs_invoke[where r = "on_set_alternate dev tr al"])
     (simp_all add: dfudev_set_alternate_def)

lemma runs_get_state: "runs_script dev (dfudev_get_state dev) tr [Get_state]"
  by (rule runs_invoke[where r = "on_get_state dev tr"]) (simp_all add: dfudev_get_state_def)

lemma runs_clear_status: "runs_script dev (dfudev_clear_status dev) tr [Clear_status]"
  by (rule runs_invoke[where r = "on_clear_status dev tr"])
     (simp_all add: dfudev_clear_status_def)

lemma runs_erase: "runs_script dev (dfudev_erase dev a) tr [Erase a]"
  by (rule runs_invoke[where r = "on_erase dev tr a"]) (simp_all add: dfudev_erase_def)

lemma runs_set_address: "runs_script dev (dfudev_set_address dev a) tr [Set_address a]"
  by (rule runs_invoke[where r = "on_set_address dev tr a"])
     (simp_all add: dfudev_set_address_def)

lemma runs_write: "runs_script dev (dfudev_write dev n b) tr [Write n b]"
  by (rule runs_invoke[where r = "on_write dev tr n b"]) (simp_all add: dfudev_write_def)

lemma runs_wait_error:
  "runs_script dev (dfudev_wait_while_state dev DFU_ERROR None) tr
     [Wait_while_state DFU_ERROR None]"
proof (cases "on_wait_while_state dev tr DFU_ERROR None")
  case (Inl e)
  then show ?thesis
    by (intro runs_scriptI[where new = "[Wait_while_state DFU_ERROR None]" and out = "Raises e"])
       (simp_all add: dfudev_wait_while_state_def)
next
  case (Inr st)
  show ?thesis
  proof (cases "state st = DFU_ERROR")
    case True
    with Inr show ?thesis
      by (intro runs_scriptI[where new = "[Wait_while_state DFU_ERROR None]" and out = "Hangs"])
         (simp_all add: dfudev_wait_while_state_def)
  next
    case False
    with Inr show ?thesis
      by (intro runs_scriptI[where new = "[Wait_while_state DFU_ERROR None]"
            and out = "Returns st"])
         (simp_all add: dfudev_wait_while_state_def)
  qed
qed

text \<open>A wait for \<^verbatim>\<open>DFU_DOWNLOAD_BUSY\<close> with the check of the state that follows it.\<close>

lemma runs_wait_idle:
  assumes "\<And>status. on_wait_while_state dev tr DFU_DOWNLOAD_BUSY t = Inr status \<Longrightarrow>
      state status = DFU_DOWNLOAD_IDLE \<Longrightarrow>
      runs_script dev k (tr @ [Wait_while_state DFU_DOWNLOAD_BUSY t]) s2"
  shows "runs_script dev
     (then_do (dfudev_wait_while_state dev DFU_DOWNLOAD_BUSY t)
        (\<lambda>status. if state status \<noteq> DFU_DOWNLOAD_IDLE then raise (status_error status) else k))
     tr (Wait_while_state DFU_DOWNLOAD_BUSY t # s2)"
    (is "runs_script dev ?m tr (?w # s2)")
proof (cases "on_wait_while_state dev tr DFU_DOWNLOAD_BUSY t")
  case (Inl e)
  then show ?thesis
    by (intro runs_scriptI[where new = "[?w]" and out = "Raises e"])
       (simp_all add: dfudev_wait_while_state_def then_do_def)
next
  case (Inr st)
  consider (busy) "state st = DFU_DOWNLOAD_BUSY"
    | (idle) "state st = DFU_DOWNLOAD_IDLE"
    | (other) "state st \<noteq> DFU_DOWNLOAD_BUSY" "state st \<noteq> DFU_DOWNLOAD_IDLE"
    by blast
  then show ?thesis
  proof cases
    case busy
    show ?thesis
    proof (cases t)
      case None
      with busy Inr show ?thesis
        by (intro runs_scriptI[where new = "[?w]" and out = "Hangs"])
           (simp_all add: dfudev_wait_while_state_def then_do_def)
    next
      case (Some x)
      with busy Inr show ?thesis
        by (intro runs_scriptI[where new = "[?w]" and out = "Raises TimeoutError"])
           (simp_all add: dfudev_wait_while_state_def then_do_def)
    qed
  next
    case other
    with Inr show ?thesis
      by (intro runs_scriptI[where new = "[?w]" and out = "Raises (status_error st)"])
         (simp_all add: dfudev_wait_while_state_def then_do_def raise_def)
  next
    case idle
    from assms[OF Inr idle] obtain out n2 where
      k: "k (tr @ [?w]) = (out, (tr @ [?w]) @ n2)" and p: "prefix n2 s2" and
      f: "follows dev (tr @ [?w]) n2 (void out)" and e: "void out = Returns () \<longrightarrow> n2 = s2"
      by (rule runs_scriptE)
    have "?m tr = (out, tr @ (?w # n2))"
      using Inr idle k by (simp add: dfudev_wait_while_state_def then_do_def)
    moreover have "follows dev tr (?w # n2) (void out)"
      using Inr idle f by simp
    ultimately show ?thesis
      using p e by (intro runs_scriptI[where new = "?w # n2" and out = out]) auto
  qed
qed

lemma runs_set_alternate_safe:
  "runs_script dev (set_alternate_safe dev al) tr (safe_script dev tr al)"
proof -
  have "runs_script dev (set_alternate_safe dev al) tr
      ([Set_alternate al] @ [Get_state] @
       (if on_get_state dev (tr @ [Set_alternate al]) = Inr DFU_ERROR
        then [Clear_status] @ [Wait_while_state DFU_ERROR None] @ [] else []))"
    unfolding set_alternate_safe_def
  proof (intro runs_then_do runs_set_alternate runs_get_state)
    fix x st
    assume "fst (dfudev_get_state dev (tr @ [Set_alternate al])) = Returns st"
    then have g: "on_get_state dev (tr @ [Set_alternate al]) = Inr st"
      by (auto simp: dfudev_get_state_def invoke_def split: sum.splits)
    show "runs_script dev
        (if st = DFU_ERROR
         then then_do (dfudev_clear_status dev)
                (\<lambda>_. then_do (dfudev_wait_while_state dev DFU_ERROR None) (\<lambda>_. return ()))
         else return ())
        ((tr @ [Set_alternate al]) @ [Get_state])
        (if on_get_state dev (tr @ [Set_alternate al]) = Inr DFU_ERROR
         then [Clear_status] @ [Wait_while_state DFU_ERROR None] @ [] else [])"
    proof (cases "st = DFU_ERROR")
      case True
      have "runs_script dev
          (then_do (dfudev_clear_status dev)
             (\<lambda>_. then_do (dfudev_wait_while_state dev DFU_ERROR None) (\<lambda>_. return ())))
          ((tr @ [Set_alternate al]) @ [Get_state])
          ([Clear_status] @ [Wait_while_state DFU_ERROR None] @ [])"
        by (intro runs_then_do runs_clear_status runs_wait_error runs_return)
      with True show ?thesis
        unfolding g by simp
    next
      case False
      then show ?thesis
        unfolding g by (simp add: runs_return)
    qed
  qed
  then show ?thesis by (auto simp: safe_script_def split: if_splits)
qed

lemma void_unit [simp]: "void (out :: unit outcome) = out"
  by (cases out) simp_all

lemma runs_erase_script: "runs_script dev (erase dev ss) tr (erase_script dev tr ss)"
proof (induction ss arbitrary: tr)
  case Nil
  show ?case by (simp add: runs_return)
next
  case (Cons s ss)
  let ?t = "Some (of_nat (length (data s)) / 32) :: rat option"
  let ?w = "Wait_while_state DFU_DOWNLOAD_BUSY ?t"
  have "runs_script dev (erase dev (s # ss)) tr
      (safe_script dev tr (alt s) @ [Erase (addr s)] @
       ?w # erase_script dev (((tr @ safe_script dev tr (alt s)) @ [Erase (addr s)]) @ [?w]) ss)"
    unfolding erase.simps
    by (intro runs_then_do runs_set_alternate_safe runs_erase runs_wait_idle Cons.IH)
  then show ?case by (simp add: Let_def)
qed

lemma runs_write_script:
  "runs_script dev (write_blocks dev n bs) tr (write_script n bs)"
proof (induction bs arbitrary: n tr)
  case Nil
  show ?case by (simp add: runs_return)
next
  case (Cons b bs)
  have "runs_script dev (write_blocks dev n (b # bs)) tr
      ([Write n b] @ Wait_while_state DFU_DOWNLOAD_BUSY None # write_script (Suc n) bs)"
    unfolding write_blocks.simps
    by (intro runs_then_do runs_write runs_wait_idle Cons.IH)
  then show ?case by simp
qed

lemma runs_flash_script: "runs_script dev (flash dev ss) tr (flash_script dev tr ss)"
proof (induction ss arbitrary: tr)
  case Nil
  show ?case by (simp add: runs_return)
next
  case (Cons s ss)
  let ?w = "Wait_while_state DFU_DOWNLOAD_BUSY None"
  have "runs_script dev (flash dev (s # ss)) tr
      (safe_script dev tr (alt s) @ [Set_address (addr s)] @
       ?w # (write_script 0 (blocks (data s)) @
             flash_script dev
               ((((tr @ safe_script dev tr (alt s)) @ [Set_address (addr s)]) @ [?w]) @
                write_script 0 (blocks (data s))) ss))"
    unfolding flash.simps
    by (intro runs_then_do runs_set_alternate_safe runs_set_address runs_wait_idle
        runs_write_script Cons.IH)
  then show ?case by (simp add: Let_def)
qed

lemma erase_prefix_returns:
  "erase dev pre tr = (Returns (), tra) \<Longrightarrow> erase dev (pre @ rest) tr = erase dev rest tra"
proof (induction pre arbitrary: tr)
  case Nil
  then show ?case by (simp add: return_def)
next
  case (Cons p pre)
  from Cons.prems show ?case
    by (auto simp: then_do_def raise_def Cons.IH split: prod.splits outcome.splits if_splits)
qed

lemma concat_blocks_upto:
  "concat (map (\<lambda>k. take t (drop (k * t) d)) [0..<n]) = take (n * t) d"
proof (induction n)
  case 0
  show ?case by simp
next
  case (Suc n)
  have "take (n * t + t) d = take (n * t) d @ take t (drop (n * t) d)"
    by (rule take_add)
  with Suc show ?case by (simp add: add.commute)
qed

lemma ceil_div_bound: "0 < t \<Longrightarrow> (n::nat) \<le> (n + t - 1) div t * t"
proof -
  assume t: "0 < t"
  have "(n + t - 1) div t * t + (n + t - 1) mod t = n + t - 1" by simp
  moreover have "(n + t - 1) mod t < t" using t by simp
  ultimately show ?thesis by linarith
qed

lemma below_ceil_div: "k < (n + t - 1) div t \<Longrightarrow> 0 < t \<Longrightarrow> k * t < (n::nat)"
proof -
  assume k: "k < (n + t - 1) div t" and t: "0 < t"
  then have "Suc k \<le> (n + t - 1) div t" by simp
  then have "Suc k * t \<le> (n + t - 1) div t * t" by (rule mult_le_mono1)
  also have "\<dots> \<le> n + t - 1" by simp
  finally show ?thesis using t by simp
qed

lemma concat_blocks: "concat (blocks d) = d"
proof -
  have "concat (blocks d) = take ((length d + 2048 - 1) div 2048 * 2048) d"
    by (simp add: blocks_def py_range_def TRANSFER_SIZE_def comp_def concat_blocks_upto)
  also have "\<dots> = d"
    using ceil_div_bound[of 2048 "length d"] by simp
  finally show ?thesis .
qed

lemma length_blocks: "length (blocks d) = (length d + 2047) div 2048"
  by (simp add: blocks_def py_range_def TRANSFER_SIZE_def)

lemma block_length: "b \<in> set (blocks d) \<Longrightarrow> 0 < length b \<and> length b \<le> 2048"
proof -
  assume "b \<in> set (blocks d)"
  then obtain k where k: "k < (length d + 2048 - 1) div 2048" and
    b: "b = take 2048 (drop (k * 2048) d)"
    by (auto simp: blocks_def py_range_def TRANSFER_SIZE_def)
  from below_ceil_div[OF k] have "k * 2048 < length d" by simp
  with b show ?thesis by simp
qed

lemma nth_blocks:
  "k < length (blocks d) \<Longrightarrow> blocks d ! k = take 2048 (drop (k * 2048) d)"
  by (simp add: blocks_def py_range_def TRANSFER_SIZE_def)

lemma write_script_enumerate:
  "write_script n bs =
     concat (map (\<lambda>(k, b). [Write k b, Wait_while_state DFU_DOWNLOAD_BUSY None])
       (enumerate n bs))"
  by (induction bs arbitrary: n) simp_all

lemma erased_simps [simp]:
  "erased [] = []"
  "erased (Erase a # cs) = a # erased cs"
  "erased (Set_alternate al # cs) = erased cs"
  "erased (Get_state # cs) = erased cs"
  "erased (Clear_status # cs) = erased cs"
  "erased (Wait_while_state st t # cs) = erased cs"
  "erased (Set_address a # cs) = erased cs"
  "erased (Write n b # cs) = erased cs"
  by (simp_all add: erased_def)

lemma written_simps [simp]:
  "written [] = []"
  "written (Write n b # cs) = (n, b) # written cs"
  "written (Set_alternate al # cs) = written cs"
  "written (Get_state # cs) = written cs"
  "written (Clear_status # cs) = written cs"
  "written (Wait_while_state st t # cs) = written cs"
  "written (Set_address a # cs) = written cs"
  "written (Erase a # cs) = written cs"
  by (simp_all add: written_def)

lemma erased_append [simp]: "erased (xs @ ys) = erased xs @ erased ys"
  by (simp add: erased_def)

lemma written_append [simp]: "written (xs @ ys) = written xs @ written ys"
  by (simp add: written_def)

lemma erased_safe_script [simp]: "erased (safe_script dev tr al) = []"
  by (simp add: safe_script_def)

lemma written_safe_script [simp]: "written (safe_script dev tr al) = []"
  by (simp add: safe_script_def)

lemma erased_erase_script: "erased (erase_script dev tr ss) = map addr ss"
  by (induction ss arbitrary: tr) (simp_all add: Let_def)

lemma written_write_script: "written (write_script n bs :: 'alt call list) = enumerate n bs"
  by (induction bs arbitrary: n) simp_all

lemma written_flash_script:
  "written (flash_script dev tr ss) = concat (map (\<lambda>s. enumerate 0 (blocks (data s))) ss)"
proof (induction ss arbitrary: tr)
  case Nil
  show ?case by simp
next
  case (Cons s ss)
  then show ?case
    by (simp add: Let_def written_write_script)
qed

lemma prefix_erased: "prefix xs ys \<Longrightarrow> prefix (erased xs) (erased ys)"
  by (auto simp: prefix_def)

lemma prefix_written: "prefix xs ys \<Longrightarrow> prefix (written xs) (written ys)"
  by (auto simp: prefix_def)

lemma erase_step:
  assumes "erase dev pre tr = (Returns (), tra)"
    and "set_alternate_safe dev (alt s) tra = (Returns (), trb)"
    and "on_erase dev trb (addr s) = Inr ()"
    and "on_wait_while_state dev (trb @ [Erase (addr s)]) DFU_DOWNLOAD_BUSY
           (Some (of_nat (length (data s)) / 32)) = Inr st"
  shows "erase dev (pre @ s # post) tr =
     (if state st = DFU_DOWNLOAD_BUSY
      then (Raises TimeoutError,
            trb @ [Erase (addr s),
                   Wait_while_state DFU_DOWNLOAD_BUSY (Some (of_nat (length (data s)) / 32))])
      else if state st \<noteq> DFU_DOWNLOAD_IDLE
      then (Raises (if is_tuple st then TypeError else RuntimeError st),
            trb @ [Erase (addr s),
                   Wait_while_state DFU_DOWNLOAD_BUSY (Some (of_nat (length (data s)) / 32))])
      else erase dev post
             (trb @ [Erase (addr s),
                     Wait_while_state DFU_DOWNLOAD_BUSY (Some (of_nat (length (data s)) / 32))]))"
  unfolding erase_prefix_returns[OF assms(1)]
  using assms(2-4)
  by (simp add: then_do_def dfudev_erase_def invoke_def dfudev_wait_while_state_def raise_def
      status_error_def)

subsection \<open>Claim C5: \<^verbatim>\<open>erase\<close> stops at the first failure\<close>

text \<open>
  C5, as the code has it. \<^verbatim>\<open>erase\<close> goes through the sectors in order; for each it
  selects the alternate with \<^verbatim>\<open>set_alternate_safe\<close>, calls \<^verbatim>\<open>erase\<close> at the address of the
  sector and waits while the device is in \<^verbatim>\<open>DFU_DOWNLOAD_BUSY\<close> with the timeout
  \<^verbatim>\<open>len(data)/32\<close>, the sector size over 32. The calls it makes are a prefix of this
  script, all of it when it returns; every call but the last went well. When the
  sectors before \<open>s\<close> went well and the wait for \<open>s\<close> finds the device still busy, the
  result is \<^verbatim>\<open>TimeoutError\<close>. When the wait ends in a state other than
  \<^verbatim>\<open>DFU_DOWNLOAD_IDLE\<close>, line 78 raises: \<^verbatim>\<open>RuntimeError\<close> with the status when the status is
  no tuple, but \<^verbatim>\<open>TypeError\<close>, which carries no status, when it is one. In each of these
  cases the trace ends with this wait, so nothing is called for the sectors after \<open>s\<close>.
\<close>
theorem erase_aborts_on_failure:
  "snd (erase dev sectors tr) = tr @ new_calls (erase dev sectors) tr \<and>
   prefix (new_calls (erase dev sectors) tr) (erase_script dev tr sectors) \<and>
   follows dev tr (new_calls (erase dev sectors) tr) (fst (erase dev sectors tr)) \<and>
   (fst (erase dev sectors tr) = Returns () \<longrightarrow>
      new_calls (erase dev sectors) tr = erase_script dev tr sectors) \<and>
   erased (erase_script dev tr sectors) = map addr sectors \<and>
   prefix (erased (new_calls (erase dev sectors) tr)) (map addr sectors) \<and>
   (erase dev pre tr = (Returns (), tra) \<and>
    set_alternate_safe dev (alt s) tra = (Returns (), trb) \<and>
    on_erase dev trb (addr s) = Inr () \<and>
    on_wait_while_state dev (trb @ [Erase (addr s)]) DFU_DOWNLOAD_BUSY
      (Some (of_nat (length (data s)) / 32)) = Inr st \<longrightarrow>
      erase dev (pre @ s # post) tr =
        (if state st = DFU_DOWNLOAD_BUSY
         then (Raises TimeoutError,
               trb @ [Erase (addr s),
                      Wait_while_state DFU_DOWNLOAD_BUSY (Some (of_nat (length (data s)) / 32))])
         else if state st \<noteq> DFU_DOWNLOAD_IDLE
         then (Raises (if is_tuple st then TypeError else RuntimeError st),
               trb @ [Erase (addr s),
                      Wait_while_state DFU_DOWNLOAD_BUSY (Some (of_nat (length (data s)) / 32))])
         else erase dev post
                (trb @ [Erase (addr s),
                        Wait_while_state DFU_DOWNLOAD_BUSY
                          (Some (of_nat (length (data s)) / 32))])))"
proof -
  note R = runs_erase_script[of dev sectors tr, unfolded runs_script_def void_unit]
  have 5: "erased (erase_script dev tr sectors) = map addr sectors"
    by (rule erased_erase_script)
  have 6: "prefix (erased (new_calls (erase dev sectors) tr)) (map addr sectors)"
    using prefix_erased[OF R[THEN conjunct2, THEN conjunct1]] by (simp add: 5)
  from R 5 6 erase_step[of dev pre tr tra s trb st post] show ?thesis
    by (intro conjI impI) blast+
qed

text \<open>The definitions that evaluate a run on a given device.\<close>

lemmas run_defs =
  then_do_def return_def raise_def invoke_def set_alternate_safe_def
  dfudev_set_alternate_def dfudev_get_state_def dfudev_clear_status_def dfudev_erase_def
  dfudev_set_address_def dfudev_write_def dfudev_wait_while_state_def

theorem erase_aborts_on_failure_witness:
  "erase (sample_device DFU_IDLE (\<lambda>n. DFU_ERROR))
     [\<lparr>alt = 0::nat, addr = 0x08000000, data = [1, 2]\<rparr>,
      \<lparr>alt = 0, addr = 0x08004000, data = [3, 4]\<rparr>] [] =
   (Raises TypeError,
    [Set_alternate 0, Get_state, Erase 0x08000000,
     Wait_while_state DFU_DOWNLOAD_BUSY (Some (1 / 16))]) \<and>
   erase (sample_device DFU_IDLE (\<lambda>n. DFU_DOWNLOAD_BUSY))
     [\<lparr>alt = 0::nat, addr = 0x08000000, data = [1, 2]\<rparr>,
      \<lparr>alt = 0, addr = 0x08004000, data = [3, 4]\<rparr>] [] =
   (Raises TimeoutError,
    [Set_alternate 0, Get_state, Erase 0x08000000,
     Wait_while_state DFU_DOWNLOAD_BUSY (Some (1 / 16))]) \<and>
   erase (sample_device DFU_IDLE (\<lambda>n. DFU_DOWNLOAD_IDLE))
     [\<lparr>alt = 0::nat, addr = 0x08000000, data = [1, 2]\<rparr>] [] =
   (Returns (),
    [Set_alternate 0, Get_state, Erase 0x08000000,
     Wait_while_state DFU_DOWNLOAD_BUSY (Some (1 / 16))])"
proof -
  let ?s = "\<lparr>alt = 0::nat, addr = 0x08000000, data = [1, 2]\<rparr>"
  let ?post = "[\<lparr>alt = 0::nat, addr = 0x08004000, data = [3, 4]\<rparr>]"
  let ?trb = "[Set_alternate 0, Get_state] :: nat call list"
  have 0: "erase (sample_device DFU_IDLE (\<lambda>n. w)) (?s # ?post) [] =
      (Raises (if w = DFU_DOWNLOAD_BUSY then TimeoutError else TypeError),
       [Set_alternate 0, Get_state, Erase 0x08000000,
        Wait_while_state DFU_DOWNLOAD_BUSY (Some (1 / 16))])"
    if w: "w \<noteq> DFU_DOWNLOAD_IDLE" for w
  proof -
    let ?dev = "sample_device DFU_IDLE (\<lambda>n. w) :: nat dfudev"
    let ?status = "\<lparr>is_tuple = True, status_code = 0, state = w, poll_timeout = 0\<rparr>"
    have a: "erase ?dev [] [] = (Returns (), [])" by (simp add: return_def)
    have b: "set_alternate_safe ?dev (alt ?s) [] = (Returns (), ?trb)"
      by (simp add: run_defs sample_device_def)
    have c: "on_erase ?dev ?trb (addr ?s) = Inr ()"
      by (simp add: sample_device_def)
    have d: "on_wait_while_state ?dev (?trb @ [Erase (addr ?s)])
        DFU_DOWNLOAD_BUSY (Some (of_nat (length (data ?s)) / 32)) = Inr ?status"
      by (simp add: sample_device_def)
    from erase_aborts_on_failure[where dev = ?dev and pre = "[]" and tr = "[]" and tra = "[]"
        and s = ?s and trb = ?trb and st = ?status and post = ?post,
        THEN conjunct2, THEN conjunct2, THEN conjunct2, THEN conjunct2, THEN conjunct2,
        THEN conjunct2, THEN mp, OF conjI[OF a conjI[OF b conjI[OF c d]]]] w
    show ?thesis by simp
  qed
  have 1: "erase (sample_device DFU_IDLE (\<lambda>n. DFU_ERROR)) (?s # ?post) [] =
     (Raises TypeError,
      [Set_alternate 0, Get_state, Erase 0x08000000,
       Wait_while_state DFU_DOWNLOAD_BUSY (Some (1 / 16))])"
    using 0[of DFU_ERROR] by simp
  have 2: "erase (sample_device DFU_IDLE (\<lambda>n. DFU_DOWNLOAD_BUSY)) (?s # ?post) [] =
     (Raises TimeoutError,
      [Set_alternate 0, Get_state, Erase 0x08000000,
       Wait_while_state DFU_DOWNLOAD_BUSY (Some (1 / 16))])"
    using 0[of DFU_DOWNLOAD_BUSY] by simp
  let ?ok = "sample_device DFU_IDLE (\<lambda>n. DFU_DOWNLOAD_IDLE) :: nat dfudev"
  note T = erase_aborts_on_failure[where dev = ?ok and sectors = "[?s]" and tr = "[]"]
  have sc: "erase_script ?ok [] [?s] =
      [Set_alternate 0, Get_state, Erase 0x08000000,
       Wait_while_state DFU_DOWNLOAD_BUSY (Some (1 / 16))]"
    by (simp add: safe_script_def sample_device_def)
  have r: "fst (erase ?ok [?s] []) = Returns ()"
    by (simp add: run_defs sample_device_def)
  from T r have "new_calls (erase ?ok [?s]) [] = erase_script ?ok [] [?s]" by blast
  moreover from T have "snd (erase ?ok [?s] []) = [] @ new_calls (erase ?ok [?s]) []"
    by blast
  ultimately have "snd (erase ?ok [?s] []) = erase_script ?ok [] [?s]" by simp
  with r sc have 3: "erase ?ok [?s] [] =
     (Returns (),
      [Set_alternate 0, Get_state, Erase 0x08000000,
       Wait_while_state DFU_DOWNLOAD_BUSY (Some (1 / 16))])"
    by (simp add: prod_eq_iff)
  from 1 2 3 show ?thesis by (intro conjI)
qed

subsection \<open>Claim C6: \<^verbatim>\<open>set_alternate_safe\<close> clears an error\<close>

text \<open>
  C6. When the device reports \<^verbatim>\<open>DFU_ERROR\<close> after the alternate is set,
  \<^verbatim>\<open>set_alternate_safe\<close> calls \<^verbatim>\<open>clear_status\<close> exactly once and then waits while the
  device is in \<^verbatim>\<open>DFU_ERROR\<close>; it returns exactly when both calls go well and the wait
  ends in a state other than \<^verbatim>\<open>DFU_ERROR\<close>. When the device reports any other state,
  it returns after the two calls \<^verbatim>\<open>set_alternate\<close> and \<^verbatim>\<open>get_state\<close>, without a call of
  \<^verbatim>\<open>clear_status\<close>.
\<close>
theorem set_alternate_safe_clears_error:
  "snd (set_alternate_safe dev al tr) = tr @ new_calls (set_alternate_safe dev al) tr \<and>
   (on_set_alternate dev tr al = Inr () \<and>
    on_get_state dev (tr @ [Set_alternate al]) = Inr DFU_ERROR \<longrightarrow>
      count_list (new_calls (set_alternate_safe dev al) tr) Clear_status = 1 \<and>
      prefix [Set_alternate al, Get_state, Clear_status]
        (new_calls (set_alternate_safe dev al) tr) \<and>
      (fst (set_alternate_safe dev al tr) = Returns () \<longleftrightarrow>
         on_clear_status dev (tr @ [Set_alternate al, Get_state]) = Inr () \<and>
         (\<exists>status. on_wait_while_state dev (tr @ [Set_alternate al, Get_state, Clear_status])
                     DFU_ERROR None = Inr status \<and> state status \<noteq> DFU_ERROR)) \<and>
      (fst (set_alternate_safe dev al tr) = Returns () \<longrightarrow>
         new_calls (set_alternate_safe dev al) tr =
           [Set_alternate al, Get_state, Clear_status, Wait_while_state DFU_ERROR None])) \<and>
   (on_set_alternate dev tr al = Inr () \<and>
    on_get_state dev (tr @ [Set_alternate al]) = Inr st \<and> st \<noteq> DFU_ERROR \<longrightarrow>
      set_alternate_safe dev al tr = (Returns (), tr @ [Set_alternate al, Get_state])) \<and>
   (on_get_state dev (tr @ [Set_alternate al]) \<noteq> Inr DFU_ERROR \<longrightarrow>
      count_list (new_calls (set_alternate_safe dev al) tr) Clear_status = 0) \<and>
   count_list (new_calls (set_alternate_safe dev al) tr) Clear_status \<le> 1"
  by (auto simp: run_defs new_calls_def split: sum.splits option.splits)

theorem set_alternate_safe_clears_error_witness:
  "set_alternate_safe (sample_device DFU_ERROR (\<lambda>n. DFU_IDLE)) (0::nat) [] =
     (Returns (), [Set_alternate 0, Get_state, Clear_status, Wait_while_state DFU_ERROR None]) \<and>
   set_alternate_safe (sample_device DFU_IDLE (\<lambda>n. DFU_IDLE)) (0::nat) [] =
     (Returns (), [Set_alternate 0, Get_state])"
proof -
  let ?d1 = "sample_device DFU_ERROR (\<lambda>n. DFU_IDLE) :: nat dfudev"
  let ?d2 = "sample_device DFU_IDLE (\<lambda>n. DFU_IDLE) :: nat dfudev"
  note T1 = set_alternate_safe_clears_error[where dev = ?d1 and al = 0 and tr = "[]"]
  have h1: "on_set_alternate ?d1 [] 0 = Inr () \<and>
      on_get_state ?d1 ([] @ [Set_alternate 0]) = Inr DFU_ERROR"
    by (simp add: sample_device_def)
  note C = T1[THEN conjunct2, THEN conjunct1, THEN mp, OF h1]
  have "on_clear_status ?d1 ([] @ [Set_alternate 0, Get_state]) = Inr () \<and>
      (\<exists>status. on_wait_while_state ?d1 ([] @ [Set_alternate 0, Get_state, Clear_status])
                     DFU_ERROR None = Inr status \<and> state status \<noteq> DFU_ERROR)"
    by (simp add: sample_device_def)
  with C have r: "fst (set_alternate_safe ?d1 0 []) = Returns ()" by blast
  with C have n: "new_calls (set_alternate_safe ?d1 0) [] =
      [Set_alternate 0, Get_state, Clear_status, Wait_while_state DFU_ERROR None]"
    by blast
  have "snd (set_alternate_safe ?d1 0 []) =
      [Set_alternate 0, Get_state, Clear_status, Wait_while_state DFU_ERROR None]"
    using T1[THEN conjunct1] n by simp
  with r have a: "set_alternate_safe ?d1 0 [] =
     (Returns (), [Set_alternate 0, Get_state, Clear_status, Wait_while_state DFU_ERROR None])"
    by (simp add: prod_eq_iff)
  have h2: "on_set_alternate ?d2 [] 0 = Inr () \<and>
      on_get_state ?d2 ([] @ [Set_alternate 0]) = Inr DFU_IDLE \<and> DFU_IDLE \<noteq> DFU_ERROR"
    by (simp add: sample_device_def)
  have b: "set_alternate_safe ?d2 0 [] = (Returns (), [Set_alternate 0, Get_state])"
    using set_alternate_safe_clears_error[where dev = ?d2 and al = 0 and tr = "[]"
        and st = DFU_IDLE, THEN conjunct2, THEN conjunct2, THEN conjunct1, THEN mp, OF h2]
    by simp
  from a b show ?thesis by (intro conjI)
qed

subsection \<open>Claim C7: \<^verbatim>\<open>flash\<close> writes the blocks in order\<close>

lemma write_blocks_prefix_returns:
  "write_blocks dev n pre tr = (Returns (), tra) \<Longrightarrow>
     write_blocks dev n (pre @ rest) tr = write_blocks dev (n + length pre) rest tra"
proof (induction pre arbitrary: n tr)
  case Nil
  then show ?case by (simp add: return_def)
next
  case (Cons p pre)
  from Cons.prems show ?case
    by (auto simp: then_do_def raise_def Cons.IH split: prod.splits outcome.splits if_splits)
qed

lemma flash_prefix_returns:
  "flash dev pre tr = (Returns (), tra) \<Longrightarrow> flash dev (pre @ rest) tr = flash dev rest tra"
proof (induction pre arbitrary: tr)
  case Nil
  then show ?case by (simp add: return_def)
next
  case (Cons p pre)
  from Cons.prems show ?case
    by (auto simp: then_do_def raise_def Cons.IH split: prod.splits outcome.splits if_splits)
qed

lemma flash_step:
  assumes "flash dev pre tr = (Returns (), tra)"
    and "set_alternate_safe dev (alt s) tra = (Returns (), trb)"
    and "on_set_address dev trb (addr s) = Inr ()"
    and "on_wait_while_state dev (trb @ [Set_address (addr s)]) DFU_DOWNLOAD_BUSY None = Inr sta"
    and "state sta = DFU_DOWNLOAD_IDLE"
    and "blocks (data s) = bs @ b # bs'"
    and "write_blocks dev 0 bs
           (trb @ [Set_address (addr s), Wait_while_state DFU_DOWNLOAD_BUSY None])
         = (Returns (), trc)"
    and "on_write dev trc (length bs) b = Inr ()"
    and "on_wait_while_state dev (trc @ [Write (length bs) b]) DFU_DOWNLOAD_BUSY None = Inr st"
    and "state st \<noteq> DFU_DOWNLOAD_BUSY" "state st \<noteq> DFU_DOWNLOAD_IDLE"
  shows "flash dev (pre @ s # post) tr =
     (Raises (if is_tuple st then TypeError else RuntimeError st),
      trc @ [Write (length bs) b, Wait_while_state DFU_DOWNLOAD_BUSY None])"
proof -
  have w: "write_blocks dev 0 (blocks (data s))
      (trb @ [Set_address (addr s), Wait_while_state DFU_DOWNLOAD_BUSY None]) =
      (Raises (if is_tuple st then TypeError else RuntimeError st),
       trc @ [Write (length bs) b, Wait_while_state DFU_DOWNLOAD_BUSY None])"
    unfolding assms(6) write_blocks_prefix_returns[OF assms(7)]
    using assms(8-11)
    by (simp add: then_do_def dfudev_write_def invoke_def dfudev_wait_while_state_def raise_def
        status_error_def)
  show ?thesis
    unfolding flash_prefix_returns[OF assms(1)]
    using assms(2-5) w
    by (simp add: then_do_def dfudev_set_address_def invoke_def dfudev_wait_while_state_def)
qed

text \<open>
  C7. The payload is split into blocks of at most \<^verbatim>\<open>TRANSFER_SIZE\<close> = 2048 bytes, none
  empty, whose concatenation is the payload. For each sector \<^verbatim>\<open>flash\<close> selects the
  alternate, sets the address, waits, and then writes the blocks with the numbers
  0, 1, ... in order, a wait after each write. The calls it makes are a prefix of this
  script, all of it when it returns; every call but the last went well. When a wait
  after a write ends in a state other than \<^verbatim>\<open>DFU_DOWNLOAD_IDLE\<close>, \<^verbatim>\<open>flash\<close> raises an error
  (the \<^verbatim>\<open>TypeError\<close> of the formatting for a status tuple, \<^verbatim>\<open>RuntimeError\<close> with the
  status otherwise) and the trace ends with this wait: no further block and no further
  sector is written.
\<close>
theorem flash_writes_blocks:
  "TRANSFER_SIZE = 2048 \<and>
   concat (blocks dat) = dat \<and>
   length (blocks dat) = (length dat + 2047) div 2048 \<and>
   (\<forall>b \<in> set (blocks dat). 0 < length b \<and> length b \<le> TRANSFER_SIZE) \<and>
   snd (flash dev sectors tr) = tr @ new_calls (flash dev sectors) tr \<and>
   prefix (new_calls (flash dev sectors) tr) (flash_script dev tr sectors) \<and>
   follows dev tr (new_calls (flash dev sectors) tr) (fst (flash dev sectors tr)) \<and>
   (fst (flash dev sectors tr) = Returns () \<longrightarrow>
      new_calls (flash dev sectors) tr = flash_script dev tr sectors) \<and>
   written (flash_script dev tr sectors) =
     concat (map (\<lambda>s. enumerate 0 (blocks (data s))) sectors) \<and>
   prefix (written (new_calls (flash dev sectors) tr))
     (concat (map (\<lambda>s. enumerate 0 (blocks (data s))) sectors)) \<and>
   (flash dev pre tr = (Returns (), tra) \<and>
    set_alternate_safe dev (alt s) tra = (Returns (), trb) \<and>
    on_set_address dev trb (addr s) = Inr () \<and>
    on_wait_while_state dev (trb @ [Set_address (addr s)]) DFU_DOWNLOAD_BUSY None = Inr sta \<and>
    state sta = DFU_DOWNLOAD_IDLE \<and>
    blocks (data s) = bs @ b # bs' \<and>
    write_blocks dev 0 bs (trb @ [Set_address (addr s), Wait_while_state DFU_DOWNLOAD_BUSY None])
      = (Returns (), trc) \<and>
    on_write dev trc (length bs) b = Inr () \<and>
    on_wait_while_state dev (trc @ [Write (length bs) b]) DFU_DOWNLOAD_BUSY None = Inr st \<and>
    state st \<noteq> DFU_DOWNLOAD_BUSY \<and> state st \<noteq> DFU_DOWNLOAD_IDLE \<longrightarrow>
      flash dev (pre @ s # post) tr =
        (Raises (if is_tuple st then TypeError else RuntimeError st),
         trc @ [Write (length bs) b, Wait_while_state DFU_DOWNLOAD_BUSY None]))"
proof -
  note R = runs_flash_script[of dev sectors tr, unfolded runs_script_def void_unit]
  have 1: "TRANSFER_SIZE = 2048" by (simp add: TRANSFER_SIZE_def)
  have 2: "concat (blocks dat) = dat" by (rule concat_blocks)
  have 3: "length (blocks dat) = (length dat + 2047) div 2048" by (rule length_blocks)
  have 4: "\<forall>b \<in> set (blocks dat). 0 < length b \<and> length b \<le> TRANSFER_SIZE"
    using block_length[of _ dat] by (simp add: TRANSFER_SIZE_def)
  have 9: "written (flash_script dev tr sectors) =
      concat (map (\<lambda>s. enumerate 0 (blocks (data s))) sectors)"
    by (rule written_flash_script)
  have 10: "prefix (written (new_calls (flash dev sectors) tr))
      (concat (map (\<lambda>s. enumerate 0 (blocks (data s))) sectors))"
    using prefix_written[OF R[THEN conjunct2, THEN conjunct1]] by (simp add: 9)
  from R 1 2 3 4 9 10 flash_step[of dev pre tr tra s trb sta bs b bs' trc st post]
  show ?thesis
    by (intro conjI impI) blast+
qed

theorem flash_writes_blocks_witness:
  "flash (sample_device DFU_IDLE (\<lambda>n. DFU_DOWNLOAD_IDLE))
     [\<lparr>alt = 0::nat, addr = 0x08000000, data = [1, 2]\<rparr>] [] =
   (Returns (),
    [Set_alternate 0, Get_state, Set_address 0x08000000,
     Wait_while_state DFU_DOWNLOAD_BUSY None,
     Write 0 [1, 2], Wait_while_state DFU_DOWNLOAD_BUSY None]) \<and>
   flash (sample_device DFU_IDLE (\<lambda>n. if n < 7 then DFU_DOWNLOAD_IDLE else DFU_ERROR))
     [\<lparr>alt = 0::nat, addr = 0x08000000, data = replicate 2049 7\<rparr>,
      \<lparr>alt = 0::nat, addr = 0x08004000, data = [3, 4]\<rparr>] [] =
   (Raises TypeError,
    [Set_alternate 0, Get_state, Set_address 0x08000000,
     Wait_while_state DFU_DOWNLOAD_BUSY None,
     Write 0 (replicate 2048 7), Wait_while_state DFU_DOWNLOAD_BUSY None,
     Write 1 [7], Wait_while_state DFU_DOWNLOAD_BUSY None])"
proof -
  let ?dev = "sample_device DFU_IDLE (\<lambda>n. DFU_DOWNLOAD_IDLE) :: nat dfudev"
  let ?s = "\<lparr>alt = 0::nat, addr = 0x08000000, data = [1, 2]\<rparr>"
  have bl: "blocks [1, 2] = [[1, 2]]"
    by (simp add: blocks_def py_range_def TRANSFER_SIZE_def)
  note T = flash_writes_blocks[where dev = ?dev and sectors = "[?s]" and tr = "[]"]
  have sc: "flash_script ?dev [] [?s] =
      [Set_alternate 0, Get_state, Set_address 0x08000000,
       Wait_while_state DFU_DOWNLOAD_BUSY None,
       Write 0 [1, 2], Wait_while_state DFU_DOWNLOAD_BUSY None]"
    by (simp add: safe_script_def sample_device_def bl)
  have r: "fst (flash ?dev [?s] []) = Returns ()"
    by (simp add: run_defs sample_device_def bl)
  from T r have "new_calls (flash ?dev [?s]) [] = flash_script ?dev [] [?s]" by blast
  moreover from T have "snd (flash ?dev [?s] []) = [] @ new_calls (flash ?dev [?s]) []"
    by blast
  ultimately have "snd (flash ?dev [?s] []) = flash_script ?dev [] [?s]" by simp
  with r sc have a: "flash ?dev [?s] [] =
     (Returns (),
      [Set_alternate 0, Get_state, Set_address 0x08000000,
       Wait_while_state DFU_DOWNLOAD_BUSY None,
       Write 0 [1, 2], Wait_while_state DFU_DOWNLOAD_BUSY None])"
    by (simp add: prod_eq_iff)
  let ?bad = "sample_device DFU_IDLE (\<lambda>n. if n < 7 then DFU_DOWNLOAD_IDLE else DFU_ERROR)
    :: nat dfudev"
  let ?t = "\<lparr>alt = 0::nat, addr = 0x08000000, data = replicate 2049 7\<rparr>"
  let ?idle = "\<lparr>is_tuple = True, status_code = 0, state = DFU_DOWNLOAD_IDLE,
    poll_timeout = 0\<rparr>"
  let ?st = "\<lparr>is_tuple = True, status_code = 0, state = DFU_ERROR, poll_timeout = 0\<rparr>"
  let ?trb = "[Set_alternate 0, Get_state] :: nat call list"
  let ?trc = "[Set_alternate 0, Get_state, Set_address 0x08000000,
     Wait_while_state DFU_DOWNLOAD_BUSY None,
     Write 0 (replicate 2048 7), Wait_while_state DFU_DOWNLOAD_BUSY None] :: nat call list"
  have u: "[0..<2] = [0, Suc 0]" by (simp add: upt_rec)
  have h1: "flash ?bad [] [] = (Returns (), [])" by (simp add: return_def)
  have h2: "set_alternate_safe ?bad (alt ?t) [] = (Returns (), ?trb)"
    by (simp add: run_defs sample_device_def)
  have h3: "on_set_address ?bad ?trb (addr ?t) = Inr ()" by (simp add: sample_device_def)
  have h4: "on_wait_while_state ?bad (?trb @ [Set_address (addr ?t)]) DFU_DOWNLOAD_BUSY None
      = Inr ?idle"
    by (simp add: sample_device_def)
  have h5: "state ?idle = DFU_DOWNLOAD_IDLE" by simp
  have h6: "blocks (data ?t) = [replicate 2048 7] @ [7] # []"
    by (simp add: blocks_def py_range_def TRANSFER_SIZE_def u)
  have h7: "write_blocks ?bad 0 [replicate 2048 7]
      (?trb @ [Set_address (addr ?t), Wait_while_state DFU_DOWNLOAD_BUSY None])
      = (Returns (), ?trc)"
    by (simp add: run_defs sample_device_def)
  have h8: "on_write ?bad ?trc (length [replicate 2048 (7::byte)]) [7] = Inr ()"
    by (simp add: sample_device_def)
  have h9: "on_wait_while_state ?bad (?trc @ [Write (length [replicate 2048 (7::byte)]) [7]])
      DFU_DOWNLOAD_BUSY None = Inr ?st"
    by (simp add: sample_device_def)
  have h10: "state ?st \<noteq> DFU_DOWNLOAD_BUSY \<and> state ?st \<noteq> DFU_DOWNLOAD_IDLE" by simp
  from flash_writes_blocks[where dev = ?bad and pre = "[]" and tr = "[]" and tra = "[]"
      and s = ?t and trb = ?trb and sta = ?idle and bs = "[replicate 2048 7]" and b = "[7]"
      and bs' = "[]" and trc = ?trc and st = ?st
      and post = "[\<lparr>alt = 0::nat, addr = 0x08004000, data = [3, 4]\<rparr>]",
      THEN conjunct2, THEN conjunct2, THEN conjunct2, THEN conjunct2, THEN conjunct2,
      THEN conjunct2, THEN conjunct2, THEN conjunct2, THEN conjunct2, THEN conjunct2, THEN mp,
      OF conjI[OF h1 conjI[OF h2 conjI[OF h3 conjI[OF h4 conjI[OF h5 conjI[OF h6
         conjI[OF h7 conjI[OF h8 conjI[OF h9 h10]]]]]]]]]]
  have b: "flash ?bad [?t, \<lparr>alt = 0::nat, addr = 0x08004000, data = [3, 4]\<rparr>] [] =
     (Raises TypeError,
      [Set_alternate 0, Get_state, Set_address 0x08000000,
       Wait_while_state DFU_DOWNLOAD_BUSY None,
       Write 0 (replicate 2048 7), Wait_while_state DFU_DOWNLOAD_BUSY None,
       Write 1 [7], Wait_while_state DFU_DOWNLOAD_BUSY None])"
    by simp
  from a b show ?thesis by (intro conjI)
qed

end
